theory Spec2Isabelle
  imports Complex_Main "HOL-Library.Product_Lexorder" "HOL-Library.FSet"
begin

section \<open>Python string primitives\<close>

text \<open>
  The scripts work on Python \<^verbatim>\<open>str\<close> values, sequences of code points.  A name is
  modelled as a \<^typ>\<open>string\<close> whose characters are the code points 0..255 (so
  e with an acute accent, U+00E9, is the single character \<open>CHR 0xE9\<close>), and the string
  methods below are the Python ones on that range.
\<close>

definition py_isspace :: "char \<Rightarrow> bool" where
  \<comment> \<open>\<^verbatim>\<open>str.isspace\<close>, also what \<^verbatim>\<open>str.split()\<close>, \<^verbatim>\<open>str.strip()\<close> and the
      pattern \<^verbatim>\<open>\s\<close> test: TAB..CR, FS..US, space, NEL, NBSP.\<close>
  "py_isspace c =
     (let n = (of_char c :: nat)
      in (9 \<le> n \<and> n \<le> 13) \<or> (28 \<le> n \<and> n \<le> 32) \<or> n = 133 \<or> n = 160)"

definition py_lower_char :: "char \<Rightarrow> char" where
  \<comment> \<open>A..Z and the upper-case letters U+00C0..U+00DE (without the sign U+00D7) move
      up by 32; every other code point below 256 is its own lower case.\<close>
  "py_lower_char c =
     (let n = (of_char c :: nat)
      in if (65 \<le> n \<and> n \<le> 90) \<or> (192 \<le> n \<and> n \<le> 222 \<and> n \<noteq> 215)
         then char_of (n + 32) else c)"

definition py_lower :: "string \<Rightarrow> string" where
  "py_lower s = map py_lower_char s"

definition py_strip :: "string \<Rightarrow> string" where
  "py_strip s = rev (dropWhile py_isspace (rev (dropWhile py_isspace s)))"

fun split_ws :: "string \<Rightarrow> string \<Rightarrow> string list" where
  "split_ws cur [] = (if cur = [] then [] else [cur])"
| "split_ws cur (c # cs) =
     (if py_isspace c
      then (if cur = [] then split_ws [] cs else cur # split_ws [] cs)
      else split_ws (cur @ [c]) cs)"

definition py_split :: "string \<Rightarrow> string list" where
  \<comment> \<open>\<^verbatim>\<open>s.split()\<close>: the maximal runs of non-whitespace characters.\<close>
  "py_split s = split_ws [] s"

fun py_join :: "string \<Rightarrow> string list \<Rightarrow> string" where
  "py_join sep [] = []"
| "py_join sep [t] = t"
| "py_join sep (t # ts) = t @ sep @ py_join sep ts"

definition replace_amp :: "string \<Rightarrow> string" where
  \<comment> \<open>\<^verbatim>\<open>text.replace("&", " and ")\<close>\<close>
  "replace_amp s = concat (map (\<lambda>c. if c = CHR ''&'' then '' and '' else [c]) s)"

definition is_alnum_or_space :: "char \<Rightarrow> bool" where
  \<comment> \<open>the character class \<^verbatim>\<open>[a-z0-9\s]\<close>\<close>
  "is_alnum_or_space c =
     (let n = (of_char c :: nat)
      in (97 \<le> n \<and> n \<le> 122) \<or> (48 \<le> n \<and> n \<le> 57) \<or> py_isspace c)"

definition sub_non_alnum :: "string \<Rightarrow> string" where
  \<comment> \<open>\<^verbatim>\<open>re.sub(r"[^a-z0-9\s]", " ", text)\<close>\<close>
  "sub_non_alnum s = map (\<lambda>c. if is_alnum_or_space c then c else CHR '' '') s"

section \<open>Normalizer\<close>

definition STOPWORDS :: "string set" where
  \<comment> \<open>\<^verbatim>\<open>load_vancouver_foodies.py\<close>; its fifth entry is the five code points
      c, a, f, U+00C3, U+00A9.\<close>
  "STOPWORDS =
     {''restaurant'', ''restaurants'', ''bar'', ''cafe'',
      [CHR ''c'', CHR ''a'', CHR ''f'', CHR 0xC3, CHR 0xA9],
      ''bistro'', ''kitchen'', ''grill'', ''grille'', ''pub'', ''the'', ''and'', ''&'',
      ''lounge'', ''house'', ''eatery''}"

definition gm_STOPWORDS :: "string set" where
  \<comment> \<open>\<^verbatim>\<open>load_google_maps_list.py\<close> and \<^verbatim>\<open>update_google_maps_from_html.py\<close>; the
      fifth entry is c, a, f, U+00E9.\<close>
  "gm_STOPWORDS =
     {''restaurant'', ''restaurants'', ''bar'', ''cafe'',
      [CHR ''c'', CHR ''a'', CHR ''f'', CHR 0xE9],
      ''bistro'', ''kitchen'', ''grill'', ''grille'', ''pub'', ''the'', ''and'', ''&'',
      ''lounge'', ''house'', ''eatery''}"

definition normalize_with :: "string set \<Rightarrow> string \<Rightarrow> string" where
  \<comment> \<open>the body the copies of \<^verbatim>\<open>normalize_name\<close> share, for a stop-word set\<close>
  "normalize_with stop text =
     (let text1 = py_lower text;
          text2 = replace_amp text1;
          text3 = sub_non_alnum text2;
          tokens = filter (\<lambda>t. t \<noteq> [] \<and> t \<notin> stop) (py_split text3)
      in py_join '' '' tokens)"

definition normalize_name :: "string \<Rightarrow> string" where
  "normalize_name text = normalize_with STOPWORDS text"

definition tokenize_name :: "string \<Rightarrow> string list" where
  "tokenize_name text = py_split (normalize_name text)"

definition gm_normalize_name :: "string \<Rightarrow> string" where
  "gm_normalize_name text = normalize_with gm_STOPWORDS text"

definition gm_tokenize_name :: "string \<Rightarrow> string list" where
  "gm_tokenize_name text = py_split (gm_normalize_name text)"

section \<open>Character similarity: \<^verbatim>\<open>difflib.SequenceMatcher(None, a, b).ratio()\<close>\<close>

text \<open>
  The scripts call the standard library's \<^verbatim>\<open>SequenceMatcher\<close> with no junk predicate
  and the default \<^verbatim>\<open>autojunk=True\<close>.  Indices and lengths are natural numbers; floats
  are modelled as exact rationals.
\<close>

definition b2j_get :: "'a list \<Rightarrow> 'a \<Rightarrow> nat list" where
  \<comment> \<open>\<^verbatim>\<open>b2j.get(x, nothing)\<close> after \<^verbatim>\<open>__chain_b\<close>: the positions of \<open>x\<close> in \<open>b\<close>,
      ascending; when \<open>b\<close> has 200 elements or more, an element with more than
      \<open>n // 100 + 1\<close> positions is popular and has been deleted from the table.\<close>
  "b2j_get b x =
     (let n = length b;
          idxs = filter (\<lambda>j. b ! j = x) [0..<n]
      in if n \<ge> 200 \<and> length idxs > n div 100 + 1 then [] else idxs)"

definition isbjunk :: "'a \<Rightarrow> bool" where
  \<comment> \<open>\<^verbatim>\<open>self.bjunk.__contains__\<close>; \<^verbatim>\<open>bjunk\<close> is the empty set, as \<^verbatim>\<open>isjunk\<close> is None\<close>
  "isbjunk x = False"

definition j2lenget :: "(nat \<rightharpoonup> nat) \<Rightarrow> nat \<Rightarrow> nat" where
  \<comment> \<open>\<^verbatim>\<open>j2len.get(j-1, 0)\<close>; for \<open>j = 0\<close> the key \<open>-1\<close> is never in the table\<close>
  "j2lenget j2len j =
     (if j = 0 then 0 else case j2len (j - 1) of None \<Rightarrow> 0 | Some v \<Rightarrow> v)"

type_synonym flm_state = "(nat \<rightharpoonup> nat) \<times> nat \<times> nat \<times> nat"

fun inner_loop ::
  "nat \<Rightarrow> nat \<Rightarrow> nat \<Rightarrow> (nat \<rightharpoonup> nat) \<Rightarrow> nat list \<Rightarrow> flm_state \<Rightarrow> flm_state" where
  "inner_loop blo bhi i j2len [] st = st"
| "inner_loop blo bhi i j2len (j # js) (newj2len, besti, bestj, bestsize) =
     (if j < blo then inner_loop blo bhi i j2len js (newj2len, besti, bestj, bestsize)
      else if j \<ge> bhi then (newj2len, besti, bestj, bestsize)
      else let k = j2lenget j2len j + 1;
               newj2len' = newj2len(j \<mapsto> k)
           in if k > bestsize
              then inner_loop blo bhi i j2len js (newj2len', Suc i - k, Suc j - k, k)
              else inner_loop blo bhi i j2len js (newj2len', besti, bestj, bestsize))"

fun outer_loop ::
  "'a list \<Rightarrow> 'a list \<Rightarrow> nat \<Rightarrow> nat \<Rightarrow> nat list \<Rightarrow> flm_state \<Rightarrow> flm_state" where
  "outer_loop a b blo bhi [] st = st"
| "outer_loop a b blo bhi (i # is) (j2len, besti, bestj, bestsize) =
     outer_loop a b blo bhi is
       (inner_loop blo bhi i j2len (b2j_get b (a ! i)) (Map.empty, besti, bestj, bestsize))"

function extend_left ::
  "'a list \<Rightarrow> 'a list \<Rightarrow> nat \<Rightarrow> nat \<Rightarrow> bool \<Rightarrow> nat \<times> nat \<times> nat \<Rightarrow> nat \<times> nat \<times> nat" where
  "extend_left a b alo blo junk (besti, bestj, bestsize) =
     (if besti > alo \<and> bestj > blo \<and> isbjunk (b ! (bestj - 1)) = junk
         \<and> a ! (besti - 1) = b ! (bestj - 1)
      then extend_left a b alo blo junk (besti - 1, bestj - 1, bestsize + 1)
      else (besti, bestj, bestsize))"
  by pat_completeness auto
termination
  by (relation "measure (\<lambda>(a, b, alo, blo, junk, besti, bestj, bestsize). besti)") auto

function extend_right ::
  "'a list \<Rightarrow> 'a list \<Rightarrow> nat \<Rightarrow> nat \<Rightarrow> bool \<Rightarrow> nat \<times> nat \<times> nat \<Rightarrow> nat \<times> nat \<times> nat" where
  "extend_right a b ahi bhi junk (besti, bestj, bestsize) =
     (if besti + bestsize < ahi \<and> bestj + bestsize < bhi
         \<and> isbjunk (b ! (bestj + bestsize)) = junk
         \<and> a ! (besti + bestsize) = b ! (bestj + bestsize)
      then extend_right a b ahi bhi junk (besti, bestj, bestsize + 1)
      else (besti, bestj, bestsize))"
  by pat_completeness auto
termination
  by (relation "measure (\<lambda>(a, b, ahi, bhi, junk, besti, bestj, bestsize). ahi - (besti + bestsize))") auto

definition find_longest_match ::
  "'a list \<Rightarrow> 'a list \<Rightarrow> nat \<Rightarrow> nat \<Rightarrow> nat \<Rightarrow> nat \<Rightarrow> nat \<times> nat \<times> nat" where
  "find_longest_match a b alo ahi blo bhi =
     (case outer_loop a b blo bhi [alo..<ahi] (Map.empty, alo, blo, 0) of
        (j2len, besti, bestj, bestsize) \<Rightarrow>
          extend_right a b ahi bhi True
            (extend_left a b alo blo True
              (extend_right a b ahi bhi False
                (extend_left a b alo blo False (besti, bestj, bestsize)))))"

subsection \<open>The block returned by \<^verbatim>\<open>find_longest_match\<close> lies in its window\<close>

text \<open>
  \<open>tab_ok\<close> describes the table \<^verbatim>\<open>j2len\<close> before row \<open>n\<close> of the main loop: an entry
  \<open>j \<mapsto> v\<close> is a run of \<open>v\<close> equal elements that ends at \<open>a[n-1]\<close> and \<open>b[j]\<close> and starts
  inside the window.  \<open>best_ok\<close> describes the best block so far: it is the initial
  \<open>(alo, blo, 0)\<close> or a non-empty block of equal elements inside both windows.
\<close>

definition tab_ok :: "'a list \<Rightarrow> 'a list \<Rightarrow> nat \<Rightarrow> nat \<Rightarrow> nat \<Rightarrow> (nat \<rightharpoonup> nat) \<Rightarrow> bool" where
  "tab_ok a b alo blo n m =
     (\<forall>j v. m j = Some v \<longrightarrow>
        1 \<le> v \<and> v \<le> n - alo \<and> v \<le> Suc j - blo \<and> (\<forall>t<v. a ! (n - 1 - t) = b ! (j - t)))"

definition best_ok :: "'a list \<Rightarrow> 'a list \<Rightarrow> nat \<Rightarrow> nat \<Rightarrow> nat \<Rightarrow> nat \<Rightarrow> nat \<times> nat \<times> nat \<Rightarrow> bool" where
  "best_ok a b alo ahi blo bhi m =
     (case m of (besti, bestj, bestsize) \<Rightarrow>
        alo \<le> besti \<and> blo \<le> bestj \<and>
        (if bestsize = 0 then besti = alo \<and> bestj = blo
         else besti + bestsize \<le> ahi \<and> bestj + bestsize \<le> bhi) \<and>
        (\<forall>t<bestsize. a ! (besti + t) = b ! (bestj + t)))"

lemma b2j_get_sound: "j \<in> set (b2j_get b x) \<Longrightarrow> j < length b \<and> b ! j = x"
  by (auto simp: b2j_get_def Let_def split: if_splits)

lemma tab_okD:
  assumes "tab_ok a b alo blo n m" "m j = Some v"
  shows "1 \<le> v" "v \<le> n - alo" "v \<le> Suc j - blo" "\<And>t. t < v \<Longrightarrow> a ! (n - 1 - t) = b ! (j - t)"
  using assms unfolding tab_ok_def by blast+

lemma j2lenget_cases:
  obtains "j2lenget j2len j = 0"
  | v where "j \<noteq> 0" "j2len (j - 1) = Some v" "j2lenget j2len j = v"
  unfolding j2lenget_def by (cases "j = 0"; cases "j2len (j - 1)") auto

lemma cell_step:
  assumes tab: "tab_ok a b alo blo i j2len"
    and i: "alo \<le> i" and j: "blo \<le> j" and eq: "b ! j = a ! i"
  shows "j2lenget j2len j + 1 \<le> Suc i - alo"
    and "j2lenget j2len j + 1 \<le> Suc j - blo"
    and "\<And>t. t < j2lenget j2len j + 1 \<Longrightarrow> a ! (i - t) = b ! (j - t)"
proof -
  show "j2lenget j2len j + 1 \<le> Suc i - alo"
  proof (cases j2len j rule: j2lenget_cases)
    case 1 with i show ?thesis by simp
  next
    case (2 v)
    from tab_okD(2)[OF tab 2(2)] 2 i show ?thesis by simp
  qed
  show "j2lenget j2len j + 1 \<le> Suc j - blo"
  proof (cases j2len j rule: j2lenget_cases)
    case 1 with j show ?thesis by simp
  next
    case (2 v)
    from tab_okD(3)[OF tab 2(2)] 2 j show ?thesis by simp
  qed
  fix t assume t: "t < j2lenget j2len j + 1"
  show "a ! (i - t) = b ! (j - t)"
  proof (cases t)
    case 0 with eq show ?thesis by simp
  next
    case (Suc s)
    with t have s: "s < j2lenget j2len j" by simp
    then obtain v where v: "j \<noteq> 0" "j2len (j - 1) = Some v" "s < v"
      by (cases j2len j rule: j2lenget_cases) auto
    from tab_okD(4)[OF tab v(2) v(3)] have "a ! (i - 1 - s) = b ! (j - 1 - s)" .
    with Suc show ?thesis by simp
  qed
qed

lemma inner_loop_inv:
  assumes "tab_ok a b alo blo i j2len" "alo \<le> i" "i < ahi"
    and "\<forall>j\<in>set js. b ! j = a ! i"
    and "tab_ok a b alo blo (Suc i) newj2len"
    and "best_ok a b alo ahi blo bhi (besti, bestj, bestsize)"
    and "inner_loop blo bhi i j2len js (newj2len, besti, bestj, bestsize) = (m', r)"
  shows "tab_ok a b alo blo (Suc i) m' \<and> best_ok a b alo ahi blo bhi r"
  using assms
proof (induction js arbitrary: newj2len besti bestj bestsize)
  case Nil
  then show ?case by simp
next
  case (Cons j js)
  show ?case
  proof (cases "j < blo")
    case True
    with Cons.prems Cons.IH[of newj2len besti bestj bestsize] show ?thesis by simp
  next
    case lo: False
    show ?thesis
    proof (cases "j \<ge> bhi")
      case True
      with lo Cons.prems show ?thesis by simp
    next
      case hi: False
      let ?k = "j2lenget j2len j + 1"
      from Cons.prems have eq: "b ! j = a ! i" by simp
      from lo have jlo: "blo \<le> j" by simp
      note cs = cell_step[OF Cons.prems(1) Cons.prems(2) jlo eq]
      have tab': "tab_ok a b alo blo (Suc i) (newj2len(j \<mapsto> ?k))"
        unfolding tab_ok_def
      proof (intro allI impI)
        fix j' v assume h: "(newj2len(j \<mapsto> ?k)) j' = Some v"
        show "1 \<le> v \<and> v \<le> Suc i - alo \<and> v \<le> Suc j' - blo \<and> (\<forall>t<v. a ! (Suc i - 1 - t) = b ! (j' - t))"
        proof (cases "j' = j")
          case True
          with h have "v = ?k" by simp
          with True cs show ?thesis by simp
        next
          case False
          with h have "newj2len j' = Some v" by simp
          from tab_okD[OF Cons.prems(5) this] show ?thesis by blast
        qed
      qed
      have rest: "\<forall>j\<in>set js. b ! j = a ! i" using Cons.prems(4) by simp
      show ?thesis
      proof (cases "?k > bestsize")
        case True
        have bo: "best_ok a b alo ahi blo bhi (Suc i - ?k, Suc j - ?k, ?k)"
        proof -
          have 1: "alo \<le> Suc i - ?k" using cs(1) by simp
          have 2: "blo \<le> Suc j - ?k" using cs(2) by simp
          have 3: "Suc i - ?k + ?k \<le> ahi" using cs(1) Cons.prems(3) by simp
          have 4: "Suc j - ?k + ?k \<le> bhi" using cs(2) hi by simp
          have 5: "a ! (Suc i - ?k + t) = b ! (Suc j - ?k + t)" if "t < ?k" for t
          proof -
            from that have "j2lenget j2len j - t < ?k" by simp
            from cs(3)[OF this] have "a ! (i - (j2lenget j2len j - t)) = b ! (j - (j2lenget j2len j - t))" .
            moreover have "i - (j2lenget j2len j - t) = Suc i - ?k + t" using that cs(1) by simp
            moreover have "j - (j2lenget j2len j - t) = Suc j - ?k + t" using that cs(2) by simp
            ultimately show ?thesis by simp
          qed
          from 1 2 3 4 5 show ?thesis unfolding best_ok_def by simp
        qed
        from True lo hi Cons.prems(7)
        have "inner_loop blo bhi i j2len js (newj2len(j \<mapsto> ?k), Suc i - ?k, Suc j - ?k, ?k) = (m', r)"
          by (simp add: Let_def)
        from Cons.IH[OF Cons.prems(1,2,3) rest tab' bo this] show ?thesis .
      next
        case False
        with lo hi Cons.prems(7)
        have "inner_loop blo bhi i j2len js (newj2len(j \<mapsto> ?k), besti, bestj, bestsize) = (m', r)"
          by (simp add: Let_def)
        from Cons.IH[OF Cons.prems(1,2,3) rest tab' Cons.prems(6) this] show ?thesis .
      qed
    qed
  qed
qed


lemma outer_loop_inv:
  assumes "tab_ok a b alo blo n j2len" "alo \<le> n"
    and "best_ok a b alo ahi blo bhi r"
  shows "best_ok a b alo ahi blo bhi (snd (outer_loop a b blo bhi [n..<ahi] (j2len, r)))"
  using assms
proof (induction "ahi - n" arbitrary: n j2len r)
  case 0
  then show ?case by simp
next
  case (Suc d)
  then have lt: "n < ahi" by simp
  obtain besti bestj bestsize where r: "r = (besti, bestj, bestsize)" by (cases r)
  obtain m' r' where step:
    "inner_loop blo bhi n j2len (b2j_get b (a ! n)) (Map.empty, besti, bestj, bestsize) = (m', r')"
    by (cases "inner_loop blo bhi n j2len (b2j_get b (a ! n)) (Map.empty, besti, bestj, bestsize)")
  have e: "tab_ok a b alo blo (Suc n) Map.empty" by (simp add: tab_ok_def)
  have el: "\<forall>j\<in>set (b2j_get b (a ! n)). b ! j = a ! n" using b2j_get_sound by fast
  from inner_loop_inv[OF Suc.prems(1,2) lt el e Suc.prems(3)[unfolded r] step]
  have inv: "tab_ok a b alo blo (Suc n) m'" "best_ok a b alo ahi blo bhi r'" by simp_all
  have d: "d = ahi - Suc n" using Suc.hyps(2) by simp
  have "alo \<le> Suc n" using Suc.prems(2) by simp
  from Suc.hyps(1)[OF d inv(1) this inv(2)]
  show ?case using lt r step by (simp add: upt_conv_Cons)
qed

declare extend_left.simps [simp del] extend_right.simps [simp del]

lemma extend_left_inv:
  "best_ok a b alo ahi blo bhi m \<Longrightarrow> best_ok a b alo ahi blo bhi (extend_left a b alo blo junk m)"
proof (induction a b alo blo junk m rule: extend_left.induct)
  case (1 a b alo blo junk besti bestj bestsize)
  show ?case
  proof (cases "besti > alo \<and> bestj > blo \<and> isbjunk (b ! (bestj - 1)) = junk
         \<and> a ! (besti - 1) = b ! (bestj - 1)")
    case True
    have nz: "bestsize \<noteq> 0" using True "1.prems" by (cases "bestsize = 0") (simp_all add: best_ok_def)
    have "best_ok a b alo ahi blo bhi (besti - 1, bestj - 1, bestsize + 1)"
    proof -
      from True have "alo < besti" "blo < bestj" by blast+
      then have 1: "alo \<le> besti - 1" "blo \<le> bestj - 1" by linarith+
      have 2: "besti - 1 + (bestsize + 1) \<le> ahi" "bestj - 1 + (bestsize + 1) \<le> bhi"
        using True nz "1.prems" by (simp_all add: best_ok_def)
      have 3: "a ! (besti - 1 + t) = b ! (bestj - 1 + t)" if t: "t < bestsize + 1" for t
      proof (cases t)
        case 0 with True show ?thesis by simp
      next
        case (Suc s)
        with t have "s < bestsize" by simp
        with "1.prems" have "a ! (besti + s) = b ! (bestj + s)" by (simp add: best_ok_def)
        with Suc True show ?thesis by simp
      qed
      from 1 2 3 show ?thesis unfolding best_ok_def by simp
    qed
    from "1.IH"[OF True this] True show ?thesis by (subst extend_left.simps) simp
  next
    case False
    have "extend_left a b alo blo junk (besti, bestj, bestsize) = (besti, bestj, bestsize)"
      by (subst extend_left.simps) (simp only: False if_False)
    with "1.prems" show ?thesis by simp
  qed
qed

lemma extend_right_inv:
  "best_ok a b alo ahi blo bhi m \<Longrightarrow> best_ok a b alo ahi blo bhi (extend_right a b ahi bhi junk m)"
proof (induction a b ahi bhi junk m rule: extend_right.induct)
  case (1 a b ahi bhi junk besti bestj bestsize)
  show ?case
  proof (cases "besti + bestsize < ahi \<and> bestj + bestsize < bhi
         \<and> isbjunk (b ! (bestj + bestsize)) = junk
         \<and> a ! (besti + bestsize) = b ! (bestj + bestsize)")
    case True
    have "best_ok a b alo ahi blo bhi (besti, bestj, bestsize + 1)"
    proof -
      have 1: "alo \<le> besti" "blo \<le> bestj" using "1.prems" by (simp_all add: best_ok_def)
      have 2: "besti + (bestsize + 1) \<le> ahi" "bestj + (bestsize + 1) \<le> bhi"
        using True by simp_all
      have 3: "a ! (besti + t) = b ! (bestj + t)" if t: "t < bestsize + 1" for t
      proof (cases "t = bestsize")
        case eq: True with True show ?thesis by simp
      next
        case False
        with t have "t < bestsize" by simp
        with "1.prems" show ?thesis by (simp add: best_ok_def)
      qed
      from 1 2 3 show ?thesis unfolding best_ok_def by simp
    qed
    from "1.IH"[OF True this] True show ?thesis by (subst extend_right.simps) simp
  next
    case False
    have "extend_right a b ahi bhi junk (besti, bestj, bestsize) = (besti, bestj, bestsize)"
      by (subst extend_right.simps) (simp only: False if_False)
    with "1.prems" show ?thesis by simp
  qed
qed

lemma find_longest_match_ok:
  "best_ok a b alo ahi blo bhi (find_longest_match a b alo ahi blo bhi)"
proof -
  have e: "tab_ok a b alo blo alo Map.empty" by (simp add: tab_ok_def)
  have i: "best_ok a b alo ahi blo bhi (alo, blo, 0)" by (simp add: best_ok_def)
  from outer_loop_inv[OF e le_refl i]
  have "best_ok a b alo ahi blo bhi (snd (outer_loop a b blo bhi [alo..<ahi] (Map.empty, alo, blo, 0)))" .
  then have "best_ok a b alo ahi blo bhi
          (extend_right a b ahi bhi True
            (extend_left a b alo blo True
              (extend_right a b ahi bhi False
                (extend_left a b alo blo False
                  (snd (outer_loop a b blo bhi [alo..<ahi] (Map.empty, alo, blo, 0)))))))"
    by (intro extend_left_inv extend_right_inv)
  then show ?thesis
    unfolding find_longest_match_def by (simp add: case_prod_unfold)
qed

subsection \<open>Matching blocks and the ratio\<close>

text \<open>
  \<^verbatim>\<open>get_matching_blocks\<close> keeps a work list of windows, used as a stack (\<^verbatim>\<open>pop()\<close> and
  \<^verbatim>\<open>append\<close> work at the end of the Python list, the head of the list here), sorts
  the blocks it found, merges adjacent ones and appends the sentinel.
\<close>

type_synonym window = "nat \<times> nat \<times> nat \<times> nat"
type_synonym block = "nat \<times> nat \<times> nat"

definition queue_measure :: "window list \<Rightarrow> nat" where
  "queue_measure queue = sum_list (map (\<lambda>(alo, ahi, blo, bhi). 2 * (ahi - alo) + 1) queue)"

function match_loop :: "'a list \<Rightarrow> 'a list \<Rightarrow> window list \<Rightarrow> block list \<Rightarrow> block list" where
  "match_loop a b [] matching_blocks = matching_blocks"
| "match_loop a b ((alo, ahi, blo, bhi) # queue) matching_blocks =
     (case find_longest_match a b alo ahi blo bhi of
        (i, j, k) \<Rightarrow>
          if k \<noteq> 0
          then match_loop a b
                 ((if i + k < ahi \<and> j + k < bhi then [(i + k, ahi, j + k, bhi)] else []) @
                  (if alo < i \<and> blo < j then [(alo, i, blo, j)] else []) @ queue)
                 (matching_blocks @ [(i, j, k)])
          else match_loop a b queue matching_blocks)"
  by pat_completeness auto
termination
proof (relation "measure (\<lambda>(a, b, queue, blocks). queue_measure queue)", goal_cases)
  case 1
  then show ?case by simp
next
  case (2 a b alo ahi blo bhi queue matching_blocks i y j k)
  then have "find_longest_match a b alo ahi blo bhi = (i, j, k)" by simp
  with find_longest_match_ok[of a b alo ahi blo bhi] 2(3)
  have "alo \<le> i" "i + k \<le> ahi" by (simp_all add: best_ok_def)
  with 2(3) show ?case by (auto simp: queue_measure_def)
next
  case 3
  then show ?case by (simp add: queue_measure_def)
qed

declare match_loop.simps [simp del]

fun collapse :: "block \<Rightarrow> block list \<Rightarrow> block list" where
  "collapse (i1, j1, k1) [] = (if k1 \<noteq> 0 then [(i1, j1, k1)] else [])"
| "collapse (i1, j1, k1) ((i2, j2, k2) # rest) =
     (if i1 + k1 = i2 \<and> j1 + k1 = j2 then collapse (i1, j1, k1 + k2) rest
      else (if k1 \<noteq> 0 then [(i1, j1, k1)] else []) @ collapse (i2, j2, k2) rest)"

definition get_matching_blocks :: "'a list \<Rightarrow> 'a list \<Rightarrow> block list" where
  "get_matching_blocks a b =
     (let la = length a; lb = length b;
          matching_blocks = sort (match_loop a b [(0, la, 0, lb)] []);
          non_adjacent = collapse (0, 0, 0) matching_blocks
      in non_adjacent @ [(la, lb, 0)])"

definition calculate_ratio :: "nat \<Rightarrow> nat \<Rightarrow> rat" where
  "calculate_ratio matches len =
     (if len \<noteq> 0 then 2 * of_nat matches / of_nat len else 1)"

definition ratio :: "'a list \<Rightarrow> 'a list \<Rightarrow> rat" where
  "ratio a b =
     (let matches = sum_list (map (\<lambda>(i, j, k). k) (get_matching_blocks a b))
      in calculate_ratio matches (length a + length b))"

definition similarity :: "string \<Rightarrow> string \<Rightarrow> rat" where
  "similarity a b = ratio a b"

section \<open>Scorer\<close>

definition prefix_match_score :: "string list \<Rightarrow> string list \<Rightarrow> rat" where
  "prefix_match_score a_tokens b_tokens =
     (if a_tokens = [] \<or> b_tokens = [] then 0
      else let a_prefix = take 3 a_tokens;
               b_prefix = take 3 b_tokens
           in if a_prefix = b_prefix \<and> length a_prefix \<ge> 2 then 93 / 100
              else if length a_tokens \<ge> 2 \<and> length b_tokens \<ge> 2
                      \<and> take 2 a_tokens = take 2 b_tokens then 9 / 10
              else 0)"

definition token_overlap_score :: "string list \<Rightarrow> string list \<Rightarrow> rat" where
  "token_overlap_score a_tokens b_tokens =
     (if length a_tokens < 2 \<or> length b_tokens < 2 then 0
      else let overlap = set a_tokens \<inter> set b_tokens;
               r = (of_nat (card overlap) :: rat)
                     / of_nat (min (length a_tokens) (length b_tokens))
           in if r \<ge> 3 / 4 then 9 / 10 else 0)"

definition pair_score :: "string \<Rightarrow> string list \<Rightarrow> string \<Rightarrow> string list \<Rightarrow> rat" where
  \<comment> \<open>the score both resolvers compute in the body of their loop\<close>
  "pair_score target_norm target_tokens cand_norm cand_tokens =
     max (similarity target_norm cand_norm)
       (max (prefix_match_score target_tokens cand_tokens)
            (token_overlap_score target_tokens cand_tokens))"

definition score :: "string \<Rightarrow> string \<Rightarrow> rat" where
  \<comment> \<open>what the loop of \<^verbatim>\<open>match_listing\<close> computes for the target \<open>a\<close> and a candidate
      named \<open>b\<close>\<close>
  "score a b =
     pair_score (normalize_name a) (tokenize_name a) (normalize_name b) (tokenize_name b)"

definition gm_score :: "string \<Rightarrow> string \<Rightarrow> rat" where
  \<comment> \<open>the same for the loop of \<^verbatim>\<open>match_name\<close>, with the normalizer of its file\<close>
  "gm_score a b =
     pair_score (gm_normalize_name a) (gm_tokenize_name a)
       (gm_normalize_name b) (gm_tokenize_name b)"

section \<open>Resolver of \<^verbatim>\<open>load_vancouver_foodies.py\<close>\<close>

text \<open>
  A candidate is a dictionary of which the resolvers read the key \<^verbatim>\<open>"name"\<close> only: a
  record with a \<open>name\<close> field and any further fields.
\<close>

record named =
  name :: string

record listing = named +
  url :: string
  badges :: "string list"
  halal_certified :: bool
  alcohol_served :: bool

fun override_scan :: "string \<Rightarrow> ('a named_scheme) list \<Rightarrow> ('a named_scheme) option" where
  \<comment> \<open>the loop over the listings inside \<^verbatim>\<open>if override_key in overrides\<close>\<close>
  "override_scan target [] = None"
| "override_scan target (listing # listings) =
     (if py_lower (py_strip (name listing)) = target then Some listing
      else override_scan target listings)"

fun exact_scan :: "string \<Rightarrow> ('l \<times> string) list \<Rightarrow> 'l option" where
  "exact_scan dineout_norm [] = None"
| "exact_scan dineout_norm ((listing, lnorm) # listing_norms) =
     (if dineout_norm \<noteq> [] \<and> dineout_norm = lnorm then Some listing
      else exact_scan dineout_norm listing_norms)"

fun fuzzy_scan ::
  "string \<Rightarrow> string list \<Rightarrow> (('a named_scheme) \<times> string) list
     \<Rightarrow> ('a named_scheme) option \<times> rat \<Rightarrow> ('a named_scheme) option \<times> rat" where
  "fuzzy_scan dineout_norm dineout_tokens [] (best, best_score) = (best, best_score)"
| "fuzzy_scan dineout_norm dineout_tokens ((listing, lnorm) # listing_norms) (best, best_score) =
     (let listing_tokens = tokenize_name (name listing);
          score = pair_score dineout_norm dineout_tokens lnorm listing_tokens
      in if score > best_score
         then fuzzy_scan dineout_norm dineout_tokens listing_norms (Some listing, score)
         else fuzzy_scan dineout_norm dineout_tokens listing_norms (best, best_score))"

definition match_listing ::
  "string \<Rightarrow> ('a named_scheme) list \<Rightarrow> (string \<rightharpoonup> string)
     \<Rightarrow> ('a named_scheme) option \<times> rat \<times> string" where
  "match_listing dineout_name listings overrides =
     (let override_key = py_lower (py_strip dineout_name);
          hit = (case overrides override_key of
                   None \<Rightarrow> None
                 | Some target \<Rightarrow> override_scan target listings)
      in case hit of
           Some listing \<Rightarrow> (Some listing, 1, ''override'')
         | None \<Rightarrow>
             let dineout_norm = normalize_name dineout_name;
                 dineout_tokens = tokenize_name dineout_name;
                 listing_norms = map (\<lambda>listing. (listing, normalize_name (name listing))) listings
             in case exact_scan dineout_norm listing_norms of
                  Some listing \<Rightarrow> (Some listing, 95 / 100, ''exact'')
                | None \<Rightarrow>
                    (case fuzzy_scan dineout_norm dineout_tokens listing_norms (None, 0) of
                       (best, best_score) \<Rightarrow> (best, best_score, ''fuzzy'')))"

section \<open>Resolver of \<^verbatim>\<open>load_google_maps_list.py\<close>\<close>

fun match_name_loop ::
  "string \<Rightarrow> string list \<Rightarrow> ('a named_scheme) list
     \<Rightarrow> ('a named_scheme) option \<times> rat \<Rightarrow> ('a named_scheme) option \<times> rat" where
  "match_name_loop target_norm target_tokens [] (best, best_score) = (best, best_score)"
| "match_name_loop target_norm target_tokens (cand # candidates) (best, best_score) =
     (let cand_norm = gm_normalize_name (name cand);
          cand_tokens = gm_tokenize_name (name cand)
      in if cand_norm = target_norm then (Some cand, 95 / 100)
         else let score = pair_score target_norm target_tokens cand_norm cand_tokens
              in if score > best_score
                 then match_name_loop target_norm target_tokens candidates (Some cand, score)
                 else match_name_loop target_norm target_tokens candidates (best, best_score))"

definition match_name :: "string \<Rightarrow> ('a named_scheme) list \<Rightarrow> ('a named_scheme) option \<times> rat" where
  "match_name target candidates =
     (let target_norm = gm_normalize_name target;
          target_tokens = gm_tokenize_name target
      in if target_norm = [] then (None, 0)
         else match_name_loop target_norm target_tokens candidates (None, 0))"

section \<open>Evaluation rules\<close>

lemmas str_eval = py_lower_def py_lower_char_def py_strip_def py_split_def replace_amp_def
  sub_non_alnum_def is_alnum_or_space_def py_isspace_def char_of_def bit_0 bit_Suc_0_iff Let_def

lemmas norm_eval = normalize_name_def tokenize_name_def gm_normalize_name_def
  gm_tokenize_name_def normalize_with_def STOPWORDS_def gm_STOPWORDS_def

lemmas sm_eval = similarity_def ratio_def calculate_ratio_def get_matching_blocks_def
  find_longest_match_def b2j_get_def isbjunk_def j2lenget_def extend_left.simps
  extend_right.simps match_loop.simps upt_conv_Cons less_eq_prod_def less_prod_def

lemma card_inter_code:
  "card (set xs \<inter> set ys) = length (remdups (filter (\<lambda>x. x \<in> set ys) xs))"
proof -
  have "set xs \<inter> set ys = set (remdups (filter (\<lambda>x. x \<in> set ys) xs))" by auto
  then show ?thesis by (simp only: distinct_card[OF distinct_remdups])
qed

lemmas score_eval = score_def pair_score_def prefix_match_score_def token_overlap_score_def
  card_inter_code

lemmas match_eval = match_listing_def match_name_def

section \<open>Claims about the normalizer\<close>

definition joes_cafe :: string where
  \<comment> \<open>the fixture of the stop-word test: Joe, apostrophe (U+0027), s, space, Caf, e with
      an acute accent (U+00E9), space, ampersand, space, Grill\<close>
  "joes_cafe = ''Joe'' @ [CHR 0x27] @ ''s Caf'' @ [CHR 0xE9] @ '' & Grill''"

text \<open>
  C5.  The claim is that \<^verbatim>\<open>normalize_name\<close> maps the fixture to \<open>''joe s''\<close>.  Both copies
  of \<^verbatim>\<open>normalize_name\<close> return \<open>''joe s caf''\<close>: the pattern replaces U+00E9 by a space
  before the stop-words are looked up, so the token is \<open>''caf''\<close> and the accented
  stop-word entry can never match.
\<close>

theorem C5_normalize_joes_cafe:
  "normalize_name joes_cafe = ''joe s caf'' \<and> gm_normalize_name joes_cafe = ''joe s caf''"
  by (simp add: joes_cafe_def norm_eval str_eval)

section \<open>Claims about the override shortcut\<close>

lemma override_scan_find:
  "override_scan target listings = find (\<lambda>l. py_lower (py_strip (name l)) = target) listings"
  by (induction listings) simp_all

text \<open>
  C1.  When the target's stripped, lower-cased form is a key of the override map and
  some listing's stripped, lower-cased name equals the mapped value, \<^verbatim>\<open>match_listing\<close>
  returns the first such listing with score 1 and method \<open>''override''\<close>, whatever the
  fuzzy scores of the other listings are.
\<close>

theorem C1_override_precedence:
  assumes "overrides (py_lower (py_strip dineout_name)) = Some target"
    and "\<exists>l\<in>set listings. py_lower (py_strip (name l)) = target"
  shows "\<exists>l\<in>set listings.
           find (\<lambda>l. py_lower (py_strip (name l)) = target) listings = Some l
           \<and> py_lower (py_strip (name l)) = target
           \<and> match_listing dineout_name listings overrides = (Some l, 1, ''override'')"
proof -
  from assms(2) obtain l where l: "find (\<lambda>l. py_lower (py_strip (name l)) = target) listings = Some l"
    by (cases "find (\<lambda>l. py_lower (py_strip (name l)) = target) listings")
       (auto simp: find_None_iff)
  then have "l \<in> set listings" "py_lower (py_strip (name l)) = target"
    by (auto simp: find_Some_iff)
  moreover have "match_listing dineout_name listings overrides = (Some l, 1, ''override'')"
    using assms(1) l by (simp add: match_listing_def override_scan_find)
  ultimately show ?thesis using l by blast
qed

theorem C1_override_precedence_witness:
  "match_listing '' Tide '' [\<lparr>name = ''diet''\<rparr>, \<lparr>name = ''Tides''\<rparr>] [''tide'' \<mapsto> ''diet'']
     = (Some \<lparr>name = ''diet''\<rparr>, 1, ''override'')
   \<and> score '' Tide '' ''diet'' < score '' Tide '' ''Tides''"
proof -
  have 1: "[''tide'' \<mapsto> ''diet''] (py_lower (py_strip '' Tide '')) = Some ''diet''"
    by (simp add: str_eval)
  have 2: "\<exists>l\<in>set [\<lparr>name = ''diet''\<rparr>, \<lparr>name = ''Tides''\<rparr>]. py_lower (py_strip (name l)) = ''diet''"
    by (simp add: str_eval)
  have 3: "score '' Tide '' ''diet'' < score '' Tide '' ''Tides''"
    by (simp add: score_eval norm_eval str_eval sm_eval)
  from C1_override_precedence[of "[''tide'' \<mapsto> ''diet'']" "'' Tide ''" "''diet''"
      "[\<lparr>name = ''diet''\<rparr>, \<lparr>name = ''Tides''\<rparr>]", OF 1 2] 3
  show ?thesis
    by (auto simp: str_eval)
qed

text \<open>
  C10.  When the override key is present but no listing carries the mapped name,
  \<^verbatim>\<open>match_listing\<close> returns what it returns with an empty override map: the exact
  check and the fuzzy scoring run as if there were no override.
\<close>

theorem C10_override_miss_falls_through:
  assumes "overrides (py_lower (py_strip dineout_name)) = Some target"
    and "\<forall>l\<in>set listings. py_lower (py_strip (name l)) \<noteq> target"
  shows "match_listing dineout_name listings overrides
           = match_listing dineout_name listings Map.empty"
proof -
  from assms(2) have "override_scan target listings = None"
    by (simp add: override_scan_find find_None_iff)
  with assms(1) show ?thesis by (simp add: match_listing_def)
qed

theorem C10_override_miss_falls_through_witness:
  "match_listing ''Tide'' [\<lparr>name = ''Tides''\<rparr>] [''tide'' \<mapsto> ''diet'']
     = match_listing ''Tide'' [\<lparr>name = ''Tides''\<rparr>] Map.empty
   \<and> match_listing ''Tide'' [\<lparr>name = ''Tides''\<rparr>] [''tide'' \<mapsto> ''diet'']
     = (Some \<lparr>name = ''Tides''\<rparr>, 8 / 9, ''fuzzy'')"
proof -
  have 1: "[''tide'' \<mapsto> ''diet''] (py_lower (py_strip ''Tide'')) = Some ''diet''"
    by (simp add: str_eval)
  have 2: "\<forall>l\<in>set [\<lparr>name = ''Tides''\<rparr>]. py_lower (py_strip (name l)) \<noteq> ''diet''"
    by (simp add: str_eval)
  have 3: "match_listing ''Tide'' [\<lparr>name = ''Tides''\<rparr>] Map.empty = (Some \<lparr>name = ''Tides''\<rparr>, 8 / 9, ''fuzzy'')"
    by (simp add: match_eval score_eval norm_eval str_eval sm_eval)
  from C10_override_miss_falls_through[of "[''tide'' \<mapsto> ''diet'']" "''Tide''" "''diet''"
      "[\<lparr>name = ''Tides''\<rparr>]", OF 1 2] 3
  show ?thesis by simp
qed

section \<open>Claims about the scorer\<close>

lemma kebab_norms:
  "normalize_name ''Kebab House Downtown'' = ''kebab downtown''"
  "normalize_name ''Kebab House Main St'' = ''kebab main st''"
  by (simp_all add: norm_eval str_eval)

lemma kebab_tokens:
  "py_split ''kebab downtown'' = [''kebab'', ''downtown'']"
  "py_split ''kebab main st'' = [''kebab'', ''main'', ''st'']"
  by (simp_all add: str_eval)

lemma kebab_similarity: "similarity ''kebab downtown'' ''kebab main st'' = 16 / 27"
  by (simp add: sm_eval)

lemma kebab_score: "score ''Kebab House Downtown'' ''Kebab House Main St'' = 16 / 27"
  by (simp add: score_eval tokenize_name_def kebab_norms kebab_tokens kebab_similarity)

text \<open>
  C4, as stated: the score of \<open>''Kebab House Downtown''\<close> and \<open>''Kebab House Main St''\<close>
  is at least 0.90.  It is not.
\<close>

theorem C4_kebab_house_counterexample:
  "\<not> 9 / 10 \<le> score ''Kebab House Downtown'' ''Kebab House Main St''"
  by (simp add: kebab_score)

text \<open>
  C4, amended.  \<open>''house''\<close> is a stop-word, so the two names normalize to
  \<open>''kebab downtown''\<close> and \<open>''kebab main st''\<close>: the second tokens differ, the prefix and
  the overlap heuristics give 0, and the score is the character ratio 16/27.
\<close>

theorem C4_kebab_house_score:
  "normalize_name ''Kebab House Downtown'' = ''kebab downtown''
   \<and> normalize_name ''Kebab House Main St'' = ''kebab main st''
   \<and> score ''Kebab House Downtown'' ''Kebab House Main St'' = 16 / 27"
  by (simp add: kebab_norms kebab_score)

lemma the_bar_norms: "normalize_name ''The'' = []" "normalize_name ''Bar'' = []"
  by (simp_all add: norm_eval str_eval)

lemma similarity_Nil_Nil: "similarity [] [] = 1"
  by (simp add: sm_eval)

lemma the_bar_score: "score ''The'' ''Bar'' = 1"
  by (simp add: score_eval tokenize_name_def the_bar_norms py_split_def similarity_Nil_Nil)

lemma match_name_empty_target:
  "gm_normalize_name target = [] \<Longrightarrow> match_name target candidates = (None, 0)"
  by (simp add: match_name_def)

text \<open>
  C2.  The claim is that a target whose normalized name is empty scores 0 against every
  candidate.  In \<^verbatim>\<open>match_listing\<close> the target \<open>''The''\<close> and the candidate \<open>''Bar''\<close> both
  normalize to the empty string, the ratio of two empty strings is 1, and the candidate
  is returned with score 1 (\<^verbatim>\<open>match_name\<close> returns no candidate and 0 for such a
  target, see \<open>match_name_empty_target\<close>).
\<close>

theorem C2_empty_target_scores_one:
  "normalize_name ''The'' = [] 
   \<and> score ''The'' ''Bar'' = 1
   \<and> match_listing ''The'' [\<lparr>name = ''Bar''\<rparr>] Map.empty = (Some \<lparr>name = ''Bar''\<rparr>, 1, ''fuzzy'')"
  using the_bar_score
  by (simp add: match_listing_def score_def the_bar_norms)

lemma tide_diet_norms: "normalize_name ''tide'' = ''tide''" "normalize_name ''diet'' = ''diet''"
  by (simp_all add: norm_eval str_eval)

lemma tide_diet_tokens: "py_split ''tide'' = [''tide'']" "py_split ''diet'' = [''diet'']"
  by (simp_all add: str_eval)

lemma tide_diet_similarity:
  "similarity ''tide'' ''diet'' = 1 / 4" "similarity ''diet'' ''tide'' = 1 / 2"
  by (simp_all add: sm_eval)

text \<open>
  C6, as stated: the score of \<open>(a, b)\<close> equals the score of \<open>(b, a)\<close>.  The character
  ratio depends on the order of its arguments.
\<close>

theorem C6_score_symmetry_counterexample:
  "score ''tide'' ''diet'' \<noteq> score ''diet'' ''tide''
   \<and> similarity ''tide'' ''diet'' \<noteq> similarity ''diet'' ''tide''"
  by (simp add: score_eval tokenize_name_def tide_diet_norms tide_diet_tokens tide_diet_similarity)

lemma prefix_match_score_commute:
  "prefix_match_score a_tokens b_tokens = prefix_match_score b_tokens a_tokens"
proof -
  have 1: "(take 3 a_tokens = take 3 b_tokens \<and> 2 \<le> length (take 3 a_tokens))
        = (take 3 b_tokens = take 3 a_tokens \<and> 2 \<le> length (take 3 b_tokens))"
    by (metis (full_types))
  have 2: "(take 2 a_tokens = take 2 b_tokens) = (take 2 b_tokens = take 2 a_tokens)"
    by (rule eq_commute)
  have 3: "(a_tokens = [] \<or> b_tokens = []) = (b_tokens = [] \<or> a_tokens = [])"
    by (rule disj_commute)
  have 4: "(2 \<le> length a_tokens \<and> 2 \<le> length b_tokens \<and> take 2 a_tokens = take 2 b_tokens)
        = (2 \<le> length b_tokens \<and> 2 \<le> length a_tokens \<and> take 2 b_tokens = take 2 a_tokens)"
    using 2 by blast
  show ?thesis
    unfolding prefix_match_score_def Let_def by (simp only: 1 3 4)
qed

lemma token_overlap_score_commute:
  "token_overlap_score a_tokens b_tokens = token_overlap_score b_tokens a_tokens"
proof -
  have 1: "(length a_tokens < 2 \<or> length b_tokens < 2) = (length b_tokens < 2 \<or> length a_tokens < 2)"
    by (rule disj_commute)
  show ?thesis
    unfolding token_overlap_score_def Let_def
    by (simp only: 1 Int_commute[of "set a_tokens"] min.commute[of "length a_tokens"])
qed

text \<open>
  C6, amended.  The prefix-token score and the token-overlap score are symmetric for
  all token lists (the character ratio, and with it the maximum, is not).
\<close>

theorem C6_heuristics_symmetric:
  "prefix_match_score a_tokens b_tokens = prefix_match_score b_tokens a_tokens
   \<and> token_overlap_score a_tokens b_tokens = token_overlap_score b_tokens a_tokens"
  using prefix_match_score_commute token_overlap_score_commute by blast

section \<open>Override table: \<^verbatim>\<open>fetch_overrides\<close>\<close>

text \<open>
  \<^verbatim>\<open>fetch_overrides\<close> reads the rows of the table \<^verbatim>\<open>match_overrides\<close> as parsed JSON
  objects and fills a dictionary; the model starts at the list \<^verbatim>\<open>resp.json()\<close>.  In the
  assignment the right-hand side (\<^verbatim>\<open>vancouverfoodies_name\<close>) is evaluated before the
  subscript (\<^verbatim>\<open>dineout_name\<close>).
\<close>

datatype json = JNull | JStr string | JNum int | JBool bool

datatype py_error = KeyError string | AttributeError

type_synonym row = "string \<rightharpoonup> json"

definition stripped_lower :: "row \<Rightarrow> string \<Rightarrow> py_error + string" where
  \<comment> \<open>\<^verbatim>\<open>row[key].strip().lower()\<close>: a missing key raises KeyError, a value that is not a
      string has no \<^verbatim>\<open>strip\<close> and raises AttributeError\<close>
  "stripped_lower row key =
     (case row key of
        None \<Rightarrow> Inl (KeyError key)
      | Some (JStr s) \<Rightarrow> Inr (py_lower (py_strip s))
      | Some _ \<Rightarrow> Inl AttributeError)"

fun fetch_overrides_loop ::
  "row list \<Rightarrow> (string \<rightharpoonup> string) \<Rightarrow> py_error + (string \<rightharpoonup> string)" where
  "fetch_overrides_loop [] overrides = Inr overrides"
| "fetch_overrides_loop (row # rows) overrides =
     (case stripped_lower row ''vancouverfoodies_name'' of
        Inl e \<Rightarrow> Inl e
      | Inr v \<Rightarrow>
          (case stripped_lower row ''dineout_name'' of
             Inl e \<Rightarrow> Inl e
           | Inr k \<Rightarrow> fetch_overrides_loop rows (overrides(k \<mapsto> v))))"

definition fetch_overrides :: "row list \<Rightarrow> py_error + (string \<rightharpoonup> string)" where
  "fetch_overrides rows = fetch_overrides_loop rows Map.empty"

text \<open>
  A row is well-formed when both keys are present and hold strings; \<open>override_entry\<close> is
  the pair such a row contributes.  \<open>good_row\<close>, \<open>null_row\<close> and \<open>short_row\<close> are sample
  rows.
\<close>

definition well_formed :: "row \<Rightarrow> bool" where
  "well_formed row =
     ((\<exists>s. row ''dineout_name'' = Some (JStr s)) \<and> (\<exists>s. row ''vancouverfoodies_name'' = Some (JStr s)))"

definition override_entry :: "row \<Rightarrow> string \<times> string" where
  "override_entry row =
     (case (row ''dineout_name'', row ''vancouverfoodies_name'') of
        (Some (JStr k), Some (JStr v)) \<Rightarrow> (py_lower (py_strip k), py_lower (py_strip v))
      | _ \<Rightarrow> ([], []))"

definition good_row :: row where
  "good_row = [''dineout_name'' \<mapsto> JStr ''Tide'', ''vancouverfoodies_name'' \<mapsto> JStr ''Diet'']"

definition null_row :: row where
  "null_row = [''dineout_name'' \<mapsto> JStr ''Vij'', ''vancouverfoodies_name'' \<mapsto> JNull]"

definition short_row :: row where
  "short_row = [''vancouverfoodies_name'' \<mapsto> JStr ''Vij'']"

text \<open>
  \<open>row_error\<close> is the exception a malformed row raises, read off the row itself: the
  value of \<^verbatim>\<open>vancouverfoodies_name\<close> is looked at first (KeyError when the key is
  missing, AttributeError when the value is not a string), then that of
  \<^verbatim>\<open>dineout_name\<close>.  \<open>keyless_row\<close> is a sample row without the target key.
\<close>

definition row_error :: "row \<Rightarrow> py_error" where
  "row_error row =
     (case row ''vancouverfoodies_name'' of
        None \<Rightarrow> KeyError ''vancouverfoodies_name''
      | Some (JStr v) \<Rightarrow>
          (case row ''dineout_name'' of
             None \<Rightarrow> KeyError ''dineout_name''
           | Some k \<Rightarrow> AttributeError)
      | Some other \<Rightarrow> AttributeError)"

definition keyless_row :: row where
  "keyless_row = [''dineout_name'' \<mapsto> JStr ''Vij'']"

lemma stripped_lower_cases:
  obtains s where "row key = Some (JStr s)" "stripped_lower row key = Inr (py_lower (py_strip s))"
  | e where "\<nexists>s. row key = Some (JStr s)" "stripped_lower row key = Inl e"
proof (cases "row key")
  case None
  then show ?thesis using that(2) by (simp add: stripped_lower_def)
next
  case (Some j)
  then show ?thesis using that by (cases j) (simp_all add: stripped_lower_def)
qed

lemma fetch_overrides_loop_fails:
  "(\<exists>e. fetch_overrides_loop rows overrides = Inl e) = (\<exists>row\<in>set rows. \<not> well_formed row)"
proof (induction rows arbitrary: overrides)
  case Nil
  then show ?case by simp
next
  case (Cons row rows)
  show ?case
  proof (cases row "''vancouverfoodies_name''" rule: stripped_lower_cases)
    case v: (1 s)
    show ?thesis
    proof (cases row "''dineout_name''" rule: stripped_lower_cases)
      case k: (1 t)
      have wf: "well_formed row" using v(1) k(1) by (simp add: well_formed_def)
      have step: "fetch_overrides_loop (row # rows) overrides
          = fetch_overrides_loop rows (overrides(py_lower (py_strip t) \<mapsto> py_lower (py_strip s)))"
        using v(2) k(2) by simp
      have "(\<exists>e. fetch_overrides_loop (row # rows) overrides = Inl e)
          = (\<exists>row\<in>set rows. \<not> well_formed row)"
        unfolding step by (rule Cons.IH)
      also have "\<dots> = (\<exists>r\<in>set (row # rows). \<not> well_formed r)" using wf by simp
      finally show ?thesis .
    next
      case k: (2 e)
      have "\<not> well_formed row" using k(1) by (simp add: well_formed_def)
      with v(2) k(2) show ?thesis by simp
    qed
  next
    case v: (2 e)
    have "\<not> well_formed row" using v(1) by (simp add: well_formed_def)
    with v(2) show ?thesis by simp
  qed
qed

lemma fetch_overrides_loop_well_formed:
  "\<forall>row\<in>set rows. well_formed row \<Longrightarrow>
     fetch_overrides_loop rows overrides
       = Inr (overrides ++ map_of (rev (map override_entry rows)))"
proof (induction rows arbitrary: overrides)
  case Nil
  then show ?case by simp
next
  case (Cons row rows)
  then obtain k v where kv: "row ''dineout_name'' = Some (JStr k)"
      "row ''vancouverfoodies_name'' = Some (JStr v)"
    by (auto simp: well_formed_def)
  then have e: "override_entry row = (py_lower (py_strip k), py_lower (py_strip v))"
    by (simp add: override_entry_def)
  from Cons have "fetch_overrides_loop rows (overrides(py_lower (py_strip k) \<mapsto> py_lower (py_strip v)))
       = Inr (overrides(py_lower (py_strip k) \<mapsto> py_lower (py_strip v)) ++ map_of (rev (map override_entry rows)))"
    by simp
  then show ?case using kv e 
    by (simp add: stripped_lower_def map_add_upd_left)
qed

text \<open>
  C8, as stated: a malformed row is skipped and the remaining rows are processed.  A row
  with a null value, or without a key, makes \<^verbatim>\<open>fetch_overrides\<close> raise, and the
  well-formed row after it is never read.
\<close>

theorem C8_malformed_row_counterexample:
  "fetch_overrides [null_row, good_row] = Inl AttributeError
   \<and> fetch_overrides [short_row, good_row] = Inl (KeyError ''dineout_name'')
   \<and> fetch_overrides [good_row] = Inr [''tide'' \<mapsto> ''diet'']"
  by (simp add: fetch_overrides_def stripped_lower_def null_row_def good_row_def short_row_def str_eval)

lemma malformed_row_raises:
  assumes "\<not> well_formed row"
  shows "fetch_overrides_loop (row # rows) overrides = Inl (row_error row)"
proof (cases "row ''vancouverfoodies_name''")
  case None
  then show ?thesis by (simp add: stripped_lower_def row_error_def)
next
  case v: (Some jv)
  show ?thesis
  proof (cases jv)
    case (JStr s)
    show ?thesis
    proof (cases "row ''dineout_name''")
      case None
      with v JStr show ?thesis by (simp add: stripped_lower_def row_error_def)
    next
      case k: (Some jk)
      with assms v JStr have "\<nexists>t. jk = JStr t" by (simp add: well_formed_def)
      with v JStr k show ?thesis
        by (cases jk) (simp_all add: stripped_lower_def row_error_def)
    qed
  qed (use v in \<open>simp_all add: stripped_lower_def row_error_def\<close>)
qed

lemma fetch_overrides_loop_first_malformed:
  "fetch_overrides_loop rows overrides
     = (case find (\<lambda>row. \<not> well_formed row) rows of
          None \<Rightarrow> Inr (overrides ++ map_of (rev (map override_entry rows)))
        | Some row \<Rightarrow> Inl (row_error row))"
proof (induction rows arbitrary: overrides)
  case Nil
  then show ?case by simp
next
  case (Cons row rows)
  show ?case
  proof (cases "well_formed row")
    case False
    with malformed_row_raises[OF False, of rows overrides] show ?thesis by simp
  next
    case True
    then obtain k v where kv: "row ''dineout_name'' = Some (JStr k)"
        "row ''vancouverfoodies_name'' = Some (JStr v)"
      by (auto simp: well_formed_def)
    then have e: "override_entry row = (py_lower (py_strip k), py_lower (py_strip v))"
      by (simp add: override_entry_def)
    have step: "fetch_overrides_loop (row # rows) overrides
        = fetch_overrides_loop rows (overrides(py_lower (py_strip k) \<mapsto> py_lower (py_strip v)))"
      using kv by (simp add: stripped_lower_def)
    have f: "find (\<lambda>row. \<not> well_formed row) (row # rows) = find (\<lambda>row. \<not> well_formed row) rows"
      using True by simp
    have m: "overrides(py_lower (py_strip k) \<mapsto> py_lower (py_strip v)) ++ map_of (rev (map override_entry rows))
        = overrides ++ map_of (rev (map override_entry (row # rows)))"
      by (simp add: e map_add_upd_left)
    show ?thesis unfolding step f Cons.IH m ..
  qed
qed

text \<open>
  C8, amended.  \<^verbatim>\<open>fetch_overrides\<close> raises the exception of the first malformed row in
  list order (its \<open>row_error\<close>), whatever the rows after it are, and returns no map;
  so it raises exactly when some row is malformed.  When every row is well-formed it
  returns the map of the rows' entries, a later row replacing an earlier one with the
  same key.
\<close>

theorem C8_malformed_row_is_fatal:
  "fetch_overrides rows
     = (case find (\<lambda>row. \<not> well_formed row) rows of
          None \<Rightarrow> Inr (map_of (rev (map override_entry rows)))
        | Some row \<Rightarrow> Inl (row_error row))
   \<and> ((\<exists>e. fetch_overrides rows = Inl e) \<longleftrightarrow> (\<exists>row\<in>set rows. \<not> well_formed row))
   \<and> ((\<forall>row\<in>set rows. well_formed row) \<longrightarrow>
        fetch_overrides rows = Inr (map_of (rev (map override_entry rows))))"
proof -
  have "fetch_overrides rows
     = (case find (\<lambda>row. \<not> well_formed row) rows of
          None \<Rightarrow> Inr (map_of (rev (map override_entry rows)))
        | Some row \<Rightarrow> Inl (row_error row))"
    unfolding fetch_overrides_def fetch_overrides_loop_first_malformed
    by (cases "find (\<lambda>row. \<not> well_formed row) rows") simp_all
  moreover have "(\<exists>e. fetch_overrides rows = Inl e) \<longleftrightarrow> (\<exists>row\<in>set rows. \<not> well_formed row)"
    unfolding fetch_overrides_def by (rule fetch_overrides_loop_fails)
  moreover have "(\<forall>row\<in>set rows. well_formed row) \<longrightarrow>
        fetch_overrides rows = Inr (map_of (rev (map override_entry rows)))"
    using fetch_overrides_loop_well_formed[of rows Map.empty]
    by (simp add: fetch_overrides_def)
  ultimately show ?thesis by blast
qed

theorem C8_malformed_row_is_fatal_witness:
  "well_formed good_row \<and> \<not> well_formed null_row \<and> \<not> well_formed short_row
   \<and> fetch_overrides [good_row] = Inr [''tide'' \<mapsto> ''diet'']
   \<and> fetch_overrides [good_row, null_row, short_row] = Inl AttributeError
   \<and> fetch_overrides [good_row, short_row, null_row] = Inl (KeyError ''dineout_name'')
   \<and> fetch_overrides [keyless_row, null_row] = Inl (KeyError ''vancouverfoodies_name'')"
proof -
  have 1: "well_formed good_row" by (simp add: well_formed_def good_row_def)
  have 2: "\<not> well_formed null_row" by (simp add: well_formed_def null_row_def)
  have 3: "\<not> well_formed short_row" by (simp add: well_formed_def short_row_def)
  have 4: "\<not> well_formed keyless_row" by (simp add: well_formed_def keyless_row_def)
  have e: "row_error null_row = AttributeError" "row_error short_row = KeyError ''dineout_name''"
    "row_error keyless_row = KeyError ''vancouverfoodies_name''"
    by (simp_all add: row_error_def null_row_def short_row_def keyless_row_def)
  have g: "override_entry good_row = (''tide'', ''diet'')"
    by (simp add: override_entry_def good_row_def str_eval)
  from C8_malformed_row_is_fatal[of "[good_row]"]
    C8_malformed_row_is_fatal[of "[good_row, null_row, short_row]"]
    C8_malformed_row_is_fatal[of "[good_row, short_row, null_row]"]
    C8_malformed_row_is_fatal[of "[keyless_row, null_row]"]
    1 2 3 4 e g
  show ?thesis by simp
qed

section \<open>Keyed catalog: \<^verbatim>\<open>update_google_maps_from_html.py\<close>\<close>

definition clean_text :: "string \<Rightarrow> string" where
  \<comment> \<open>control characters U+0000..U+001F and U+007F are deleted, then the text is stripped\<close>
  "clean_text v =
     (if v = [] then v
      else py_strip (filter (\<lambda>c. \<not> ((of_char c :: nat) \<le> 31 \<or> (of_char c :: nat) = 127)) v))"

definition upd_normalize_name :: "string \<Rightarrow> string" where
  "upd_normalize_name text = normalize_with gm_STOPWORDS (clean_text text)"

definition is_ascii_alnum :: "char \<Rightarrow> bool" where
  "is_ascii_alnum c =
     (let n = (of_char c :: nat)
      in (97 \<le> n \<and> n \<le> 122) \<or> (65 \<le> n \<and> n \<le> 90) \<or> (48 \<le> n \<and> n \<le> 57))"

text \<open>
  \<open>sub_runs P s\<close> is \<^verbatim>\<open>re.sub\<close> with a pattern \<^verbatim>\<open>[...]+\<close> and the replacement \<^verbatim>\<open>"-"\<close>:
  every maximal run of characters in the class \<open>P\<close> becomes one dash.
\<close>

function sub_runs :: "(char \<Rightarrow> bool) \<Rightarrow> string \<Rightarrow> string" where
  "sub_runs P [] = []"
| "sub_runs P (c # cs) =
     (if P c then CHR ''-'' # sub_runs P (dropWhile P cs) else c # sub_runs P cs)"
  by pat_completeness auto
termination
  by (relation "measure (\<lambda>(P, s). length s)") (auto simp: length_dropWhile_le less_Suc_eq_le)

definition strip_dashes :: "string \<Rightarrow> string" where
  "strip_dashes s =
     rev (dropWhile (\<lambda>c. c = CHR ''-'') (rev (dropWhile (\<lambda>c. c = CHR ''-'') s)))"

definition slugify :: "string \<Rightarrow> string" where
  "slugify v =
     (let cleaned = sub_runs (\<lambda>c. \<not> is_ascii_alnum c) (py_lower (py_strip v));
          cleaned = strip_dashes (sub_runs (\<lambda>c. c = CHR ''-'') cleaned)
      in if cleaned = [] then ''restaurant'' else cleaned)"

text \<open>
  \<^verbatim>\<open>unique_slug\<close> tries \<^verbatim>\<open>base\<close>, then \<^verbatim>\<open>base-2\<close>, \<^verbatim>\<open>base-3\<close>, ... until one is not in
  the set.  The set is a Python set, hence finite; the decimal rendering \<open>str_nat\<close> of
  the counter is injective, so the search ends.
\<close>

fun str_nat :: "nat \<Rightarrow> string" where
  "str_nat n =
     (if n < 10 then [char_of (48 + n)]
      else str_nat (n div 10) @ [char_of (48 + n mod 10)])"

declare str_nat.simps [simp del]

lemma str_nat_not_Nil: "str_nat n \<noteq> []"
  by (subst str_nat.simps) simp

lemma digit_inj: "a < 10 \<Longrightarrow> b < 10 \<Longrightarrow> char_of (48 + a) = (char_of (48 + b) :: char) \<Longrightarrow> a = (b::nat)"
proof -
  assume a: "a < 10" and b: "b < 10" and e: "char_of (48 + a) = (char_of (48 + b) :: char)"
  from e have "(of_char (char_of (48 + a) :: char) :: nat) = of_char (char_of (48 + b) :: char)" by simp
  then have "(48 + a) mod 256 = (48 + b) mod 256" by (simp only: of_char_of)
  with a b show ?thesis by simp
qed

lemma str_nat_inj: "str_nat n = str_nat m \<Longrightarrow> n = m"
proof (induction n arbitrary: m rule: str_nat.induct)
  case (1 n)
  show ?case
  proof (cases "n < 10")
    case n: True
    show ?thesis
    proof (cases "m < 10")
      case True
      with n "1.prems" digit_inj[of n m] show ?thesis
        by (simp add: str_nat.simps[of n] str_nat.simps[of m])
    next
      case False
      with n "1.prems" str_nat_not_Nil[of "m div 10"] show ?thesis
        by (simp add: str_nat.simps[of n] str_nat.simps[of m])
    qed
  next
    case n: False
    show ?thesis
    proof (cases "m < 10")
      case True
      with n "1.prems" str_nat_not_Nil[of "n div 10"] show ?thesis
        by (simp add: str_nat.simps[of n] str_nat.simps[of m])
    next
      case False
      with n "1.prems" have e: "str_nat (n div 10) = str_nat (m div 10)"
        "char_of (48 + n mod 10) = (char_of (48 + m mod 10) :: char)"
        by (simp_all add: str_nat.simps[of n] str_nat.simps[of m])
      from "1.IH"[OF n e(1)] have "n div 10 = m div 10" .
      moreover from digit_inj[OF _ _ e(2)] have "n mod 10 = m mod 10" by simp
      ultimately show ?thesis by (metis div_mult_mod_eq)
    qed
  qed
qed

definition slug_candidate :: "string \<Rightarrow> nat \<Rightarrow> string" where
  "slug_candidate base counter = base @ ''-'' @ str_nat counter"

lemma slug_candidate_inj: "inj (slug_candidate base)"
  by (auto simp: inj_def slug_candidate_def dest: str_nat_inj)

function unique_slug_loop :: "string \<Rightarrow> string fset \<Rightarrow> nat \<Rightarrow> string" where
  "unique_slug_loop base existing counter =
     (let candidate = slug_candidate base counter
      in if candidate |\<notin>| existing then candidate
         else unique_slug_loop base existing (counter + 1))"
  by pat_completeness auto
termination
proof (relation "measure (\<lambda>(base, existing, counter).
          card {c. counter \<le> c \<and> slug_candidate base c |\<in>| existing})", goal_cases)
  case 1
  then show ?case by simp
next
  case (2 base existing counter candidate)
  let ?S = "\<lambda>k. {c. k \<le> c \<and> slug_candidate base c |\<in>| existing}"
  have "finite (slug_candidate base -` fset existing)"
    by (rule finite_vimageI[OF _ slug_candidate_inj]) simp
  moreover have "?S counter \<subseteq> slug_candidate base -` fset existing" by auto
  ultimately have fin: "finite (?S counter)" by (rule rev_finite_subset)
  have "counter \<in> ?S counter" using 2 by simp
  moreover have "counter \<notin> ?S (counter + 1)" by simp
  moreover have "?S (counter + 1) \<subseteq> ?S counter" by auto
  ultimately have "?S (counter + 1) \<subset> ?S counter" by blast
  from psubset_card_mono[OF fin this] show ?case by simp
qed

definition unique_slug :: "string \<Rightarrow> string fset \<Rightarrow> string" where
  "unique_slug base existing =
     (if base |\<notin>| existing then base else unique_slug_loop base existing 2)"

text \<open>
  The loop of \<^verbatim>\<open>main\<close> over the consolidated entries.  The six values an entry carries
  besides its names are kept together as a \<open>payload\<close>: they are what an update sends
  and what a new row copies.  \<open>now\<close> stands for the clock reading stored in a new row.
\<close>

record payload =
  category_name :: "string option"
  price :: "string option"
  rating :: "rat option"
  reviews_count :: "nat option"
  image_url :: "string option"
  permanently_closed :: bool

record entry = named +
  normalized :: string
  details :: payload

record catalog_row = named +
  row_id :: string
  row_slug :: "string option"

record new_row = named +
  slug :: string
  new_details :: payload
  temporarily_closed :: "bool option"
  source :: string
  scraped_at :: string

record reconcile_state =
  matched_updates :: "(string \<times> payload) list"
  new_rows :: "new_row list"
  ambiguous :: "(string \<times> string list) list"
  slugs_in_use :: "string fset"

fun index_existing ::
  "('a catalog_row_scheme) list \<Rightarrow> (string \<rightharpoonup> ('a catalog_row_scheme) list) \<times> string fset
     \<Rightarrow> (string \<rightharpoonup> ('a catalog_row_scheme) list) \<times> string fset" where
  "index_existing [] (existing_by_key, slugs) = (existing_by_key, slugs)"
| "index_existing (row # existing) (existing_by_key, slugs) =
     (let key = upd_normalize_name (name row);
          rows = (case existing_by_key key of None \<Rightarrow> [] | Some rs \<Rightarrow> rs)
      in index_existing existing
           (existing_by_key(key \<mapsto> rows @ [row]),
            (case row_slug row of
               None \<Rightarrow> slugs
             | Some s \<Rightarrow> if s \<noteq> [] then finsert s slugs else slugs)))"

definition reconcile_entry ::
  "(string \<rightharpoonup> ('a catalog_row_scheme) list) \<Rightarrow> string \<Rightarrow> entry \<Rightarrow> reconcile_state
     \<Rightarrow> reconcile_state" where
  "reconcile_entry existing_by_key now e st =
     (let key = normalized e;
          matches = (case existing_by_key key of None \<Rightarrow> [] | Some rs \<Rightarrow> rs)
      in if matches = []
         then let s = unique_slug (slugify (name e)) (slugs_in_use st)
              in st\<lparr>slugs_in_use := finsert s (slugs_in_use st),
                    new_rows := new_rows st @
                      [\<lparr>name = name e, slug = s, new_details = details e,
                        temporarily_closed = None, source = ''google_maps_list_html'',
                        scraped_at = now\<rparr>]\<rparr>
         else if length matches > 1
         then st\<lparr>ambiguous := ambiguous st @ [(name e, map name matches)]\<rparr>
         else st\<lparr>matched_updates := matched_updates st @ [(row_id (matches ! 0), details e)]\<rparr>)"

fun reconcile_loop ::
  "(string \<rightharpoonup> ('a catalog_row_scheme) list) \<Rightarrow> string \<Rightarrow> entry list \<Rightarrow> reconcile_state
     \<Rightarrow> reconcile_state" where
  "reconcile_loop existing_by_key now [] st = st"
| "reconcile_loop existing_by_key now (e # entries) st =
     reconcile_loop existing_by_key now entries (reconcile_entry existing_by_key now e st)"

definition reconcile ::
  "('a catalog_row_scheme) list \<Rightarrow> string \<Rightarrow> entry list \<Rightarrow> reconcile_state" where
  "reconcile existing now entries =
     (case index_existing existing (Map.empty, {||}) of
        (existing_by_key, slugs) \<Rightarrow>
          reconcile_loop existing_by_key now entries
            \<lparr>matched_updates = [], new_rows = [], ambiguous = [], slugs_in_use = slugs\<rparr>)"

text \<open>The catalog rows whose normalized name is the entry's key, in catalog order.\<close>

definition same_key_rows :: "('a catalog_row_scheme) list \<Rightarrow> entry \<Rightarrow> ('a catalog_row_scheme) list" where
  "same_key_rows existing e =
     filter (\<lambda>row. upd_normalize_name (name row) = normalized e) existing"

lemma index_existing_lookup:
  "(case fst (index_existing existing (existing_by_key, slugs)) key of None \<Rightarrow> [] | Some rs \<Rightarrow> rs)
     = (case existing_by_key key of None \<Rightarrow> [] | Some rs \<Rightarrow> rs)
       @ filter (\<lambda>row. upd_normalize_name (name row) = key) existing"
  by (induction existing arbitrary: existing_by_key slugs) (simp_all add: Let_def)

lemma reconcile_entry_lists:
  assumes "\<And>key. (case existing_by_key key of None \<Rightarrow> [] | Some rs \<Rightarrow> rs)
              = filter (\<lambda>row. upd_normalize_name (name row) = key) existing"
  shows "ambiguous (reconcile_entry existing_by_key now e st)
           = ambiguous st @ (if length (same_key_rows existing e) > 1
                             then [(name e, map name (same_key_rows existing e))] else [])"
    and "map fst (matched_updates (reconcile_entry existing_by_key now e st))
           = map fst (matched_updates st) @ (if length (same_key_rows existing e) = 1
                             then [row_id (hd (same_key_rows existing e))] else [])"
    and "map name (new_rows (reconcile_entry existing_by_key now e st))
           = map name (new_rows st) @ (if same_key_rows existing e = [] then [name e] else [])"
proof -
  have m: "(case existing_by_key (normalized e) of None \<Rightarrow> [] | Some rs \<Rightarrow> rs) = same_key_rows existing e"
    unfolding same_key_rows_def by (rule assms)
  show "ambiguous (reconcile_entry existing_by_key now e st)
           = ambiguous st @ (if length (same_key_rows existing e) > 1
                             then [(name e, map name (same_key_rows existing e))] else [])"
    unfolding reconcile_entry_def m Let_def by (cases "same_key_rows existing e") simp_all
  show "map fst (matched_updates (reconcile_entry existing_by_key now e st))
           = map fst (matched_updates st) @ (if length (same_key_rows existing e) = 1
                             then [row_id (hd (same_key_rows existing e))] else [])"
    unfolding reconcile_entry_def m Let_def
    by (cases "same_key_rows existing e") (simp_all add: hd_conv_nth)
  show "map name (new_rows (reconcile_entry existing_by_key now e st))
           = map name (new_rows st) @ (if same_key_rows existing e = [] then [name e] else [])"
    unfolding reconcile_entry_def m Let_def by (cases "same_key_rows existing e") simp_all
qed

lemma reconcile_loop_lists:
  assumes "\<And>key. (case existing_by_key key of None \<Rightarrow> [] | Some rs \<Rightarrow> rs)
              = filter (\<lambda>row. upd_normalize_name (name row) = key) existing"
  shows "ambiguous (reconcile_loop existing_by_key now entries st)
           = ambiguous st @ map (\<lambda>e. (name e, map name (same_key_rows existing e)))
                 (filter (\<lambda>e. length (same_key_rows existing e) > 1) entries)"
    and "map fst (matched_updates (reconcile_loop existing_by_key now entries st))
           = map fst (matched_updates st) @ map (\<lambda>e. row_id (hd (same_key_rows existing e)))
                 (filter (\<lambda>e. length (same_key_rows existing e) = 1) entries)"
    and "map name (new_rows (reconcile_loop existing_by_key now entries st))
           = map name (new_rows st) @ map name (filter (\<lambda>e. same_key_rows existing e = []) entries)"
proof (induction entries arbitrary: st)
  case Nil
  {
    case 1 show ?case by simp
  next
    case 2 show ?case by simp
  next
    case 3 show ?case by simp
  }
next
  case (Cons e entries)
  note step = reconcile_entry_lists[OF assms, of now e]
  {
    case 1 show ?case by (simp add: Cons.IH(1) step(1))
  next
    case 2 show ?case by (simp add: Cons.IH(2) step(2))
  next
    case 3 show ?case by (simp add: Cons.IH(3) step(3))
  }
qed

definition joe_rows :: "catalog_row list" where
  "joe_rows = [\<lparr>name = ''Joe Grill'', row_id = ''1'', row_slug = Some ''joe-grill''\<rparr>,
               \<lparr>name = ''Joe Bar'', row_id = ''2'', row_slug = None\<rparr>]"

definition joe_entry :: entry where
  "joe_entry = \<lparr>name = ''Joe'', normalized = ''joe'',
                 details = \<lparr>category_name = None, price = None, rating = None,
                            reviews_count = None, image_url = None,
                            permanently_closed = False\<rparr>\<rparr>"

text \<open>
  C7.  For every list of catalog rows and of entries, the ambiguous list holds exactly
  the entries whose key is shared by more than one catalog row, each with the names of
  those rows; the updates come from the entries with exactly one such row and the new
  rows from the entries with none.  So an entry with a shared key is recorded as
  ambiguous and causes neither an update nor an insert.
\<close>

theorem C7_shared_key_is_ambiguous:
  "ambiguous (reconcile existing now entries)
     = map (\<lambda>e. (name e, map name (same_key_rows existing e)))
         (filter (\<lambda>e. length (same_key_rows existing e) > 1) entries)
   \<and> map fst (matched_updates (reconcile existing now entries))
     = map (\<lambda>e. row_id (hd (same_key_rows existing e)))
         (filter (\<lambda>e. length (same_key_rows existing e) = 1) entries)
   \<and> map name (new_rows (reconcile existing now entries))
     = map name (filter (\<lambda>e. same_key_rows existing e = []) entries)
   \<and> (\<forall>e\<in>set entries. length (same_key_rows existing e) > 1 \<longrightarrow>
        (name e, map name (same_key_rows existing e))
          \<in> set (ambiguous (reconcile existing now entries)))"
proof -
  obtain existing_by_key slugs
    where ix: "index_existing existing (Map.empty, {||}) = (existing_by_key, slugs)"
    by (cases "index_existing existing (Map.empty, {||})")
  have look: "\<And>key. (case existing_by_key key of None \<Rightarrow> [] | Some rs \<Rightarrow> rs)
              = filter (\<lambda>row. upd_normalize_name (name row) = key) existing"
    using index_existing_lookup[of existing Map.empty "{||}"] ix by simp
  note lists = reconcile_loop_lists[OF look]
  have a: "ambiguous (reconcile existing now entries)
     = map (\<lambda>e. (name e, map name (same_key_rows existing e)))
         (filter (\<lambda>e. length (same_key_rows existing e) > 1) entries)"
    by (simp add: reconcile_def ix lists(1))
  have u: "map fst (matched_updates (reconcile existing now entries))
     = map (\<lambda>e. row_id (hd (same_key_rows existing e)))
         (filter (\<lambda>e. length (same_key_rows existing e) = 1) entries)"
    by (simp add: reconcile_def ix lists(2))
  have n: "map name (new_rows (reconcile existing now entries))
     = map name (filter (\<lambda>e. same_key_rows existing e = []) entries)"
    by (simp add: reconcile_def ix lists(3))
  have "\<forall>e\<in>set entries. length (same_key_rows existing e) > 1 \<longrightarrow>
        (name e, map name (same_key_rows existing e))
          \<in> set (ambiguous (reconcile existing now entries))"
    unfolding a by auto
  with a u n show ?thesis by blast
qed

theorem C7_shared_key_is_ambiguous_witness:
  "length (same_key_rows joe_rows joe_entry) > 1
   \<and> ambiguous (reconcile joe_rows ''2024-01-01'' [joe_entry]) = [(''Joe'', [''Joe Grill'', ''Joe Bar''])]
   \<and> matched_updates (reconcile joe_rows ''2024-01-01'' [joe_entry]) = []
   \<and> new_rows (reconcile joe_rows ''2024-01-01'' [joe_entry]) = []"
proof -
  have k: "same_key_rows joe_rows joe_entry = joe_rows"
    by (simp add: same_key_rows_def joe_rows_def joe_entry_def upd_normalize_name_def
        clean_text_def norm_eval str_eval)
  from C7_shared_key_is_ambiguous[of joe_rows "''2024-01-01''" "[joe_entry]"] k
  show ?thesis by (simp add: joe_rows_def joe_entry_def)
qed

section \<open>The character ratio lies between 0 and 1\<close>

text \<open>
  \<open>block_total\<close> is the number of matched elements the ratio counts, \<open>capacity\<close> the
  most a window can contribute, and \<open>push_windows\<close> the work list after a block was
  found in the window on top.
\<close>

definition block_total :: "block list \<Rightarrow> nat" where
  "block_total blocks = sum_list (map (\<lambda>(i, j, k). k) blocks)"

definition capacity :: "window \<Rightarrow> nat" where
  "capacity w = (case w of (alo, ahi, blo, bhi) \<Rightarrow> min (ahi - alo) (bhi - blo))"

definition push_windows :: "window \<Rightarrow> block \<Rightarrow> window list \<Rightarrow> window list" where
  "push_windows w m queue =
     (case (w, m) of ((alo, ahi, blo, bhi), (i, j, k)) \<Rightarrow>
        (if i + k < ahi \<and> j + k < bhi then [(i + k, ahi, j + k, bhi)] else []) @
        (if alo < i \<and> blo < j then [(alo, i, blo, j)] else []) @ queue)"

lemma match_loop_Nil: "match_loop a b [] blocks = blocks"
  by (simp add: match_loop.simps)

lemma match_loop_zero:
  "find_longest_match a b alo ahi blo bhi = (i, j, 0) \<Longrightarrow>
     match_loop a b ((alo, ahi, blo, bhi) # queue) blocks = match_loop a b queue blocks"
  by (simp add: match_loop.simps)

lemma match_loop_block:
  "find_longest_match a b alo ahi blo bhi = (i, j, k) \<Longrightarrow> k \<noteq> 0 \<Longrightarrow>
     match_loop a b ((alo, ahi, blo, bhi) # queue) blocks
       = match_loop a b (push_windows (alo, ahi, blo, bhi) (i, j, k) queue) (blocks @ [(i, j, k)])"
  by (simp add: match_loop.simps push_windows_def)

lemma match_loop_induct [case_names Nil Zero Block]:
  assumes "\<And>blocks. P [] blocks"
    and "\<And>alo ahi blo bhi queue blocks i j.
           find_longest_match a b alo ahi blo bhi = (i, j, 0) \<Longrightarrow> P queue blocks
           \<Longrightarrow> P ((alo, ahi, blo, bhi) # queue) blocks"
    and "\<And>alo ahi blo bhi queue blocks i j k.
           find_longest_match a b alo ahi blo bhi = (i, j, k) \<Longrightarrow> k \<noteq> 0
           \<Longrightarrow> P (push_windows (alo, ahi, blo, bhi) (i, j, k) queue) (blocks @ [(i, j, k)])
           \<Longrightarrow> P ((alo, ahi, blo, bhi) # queue) blocks"
  shows "P queue blocks"
proof -
  have "P' a' b' queue blocks" if "P' = (\<lambda>a' b' queue blocks. a' = a \<longrightarrow> b' = b \<longrightarrow> P queue blocks)"
    for P' a' b'
    unfolding that
  proof (induction a' b' queue blocks rule: match_loop.induct)
    case (1 a b matching_blocks)
    then show ?case using assms(1) by simp
  next
    case (2 a' b' alo ahi blo bhi queue matching_blocks)
    show ?case
    proof (intro impI)
      assume e: "a' = a" "b' = b"
      obtain i j k where f: "find_longest_match a b alo ahi blo bhi = (i, j, k)"
        by (cases "find_longest_match a b alo ahi blo bhi")
      show "P ((alo, ahi, blo, bhi) # queue) matching_blocks"
      proof (cases "k = 0")
        case True
        from "2.IH"(2)[of i "(j, k)" j k] f e True have "P queue matching_blocks" by simp
        with f True assms(2) show ?thesis by blast
      next
        case False
        from "2.IH"(1)[of i "(j, k)" j k] f e False
        have "P (push_windows (alo, ahi, blo, bhi) (i, j, k) queue) (matching_blocks @ [(i, j, k)])"
          by (simp add: push_windows_def)
        with f False assms(3) show ?thesis by blast
      qed
    qed
  qed
  then show ?thesis by blast
qed

lemma block_total_append [simp]:
  "block_total (xs @ ys) = block_total xs + block_total ys"
  by (simp add: block_total_def)

lemma block_total_simps [simp]:
  "block_total [] = 0" "block_total ((i, j, k) # xs) = k + block_total xs"
  by (simp_all add: block_total_def)

lemma capacity_split:
  assumes "alo \<le> i" "blo \<le> j" "i + k \<le> ahi" "j + k \<le> (bhi::nat)"
  shows "min (ahi - (i + k)) (bhi - (j + k)) + min (i - alo) (j - blo) + k
           \<le> min (ahi - alo) (bhi - blo)"
proof (rule min.boundedI)
  have "min (ahi - (i + k)) (bhi - (j + k)) + min (i - alo) (j - blo) + k
          \<le> (ahi - (i + k)) + (i - alo) + k"
    by (intro add_mono min.cobounded1 order_refl)
  also have "\<dots> = ahi - alo" using assms by simp
  finally show "min (ahi - (i + k)) (bhi - (j + k)) + min (i - alo) (j - blo) + k \<le> ahi - alo" .
  have "min (ahi - (i + k)) (bhi - (j + k)) + min (i - alo) (j - blo) + k
          \<le> (bhi - (j + k)) + (j - blo) + k"
    by (intro add_mono min.cobounded2 order_refl)
  also have "\<dots> = bhi - blo" using assms by simp
  finally show "min (ahi - (i + k)) (bhi - (j + k)) + min (i - alo) (j - blo) + k \<le> bhi - blo" .
qed

lemma capacity_push_le:
  "sum_list (map capacity (push_windows (alo, ahi, blo, bhi) (i, j, k) queue))
     \<le> min (ahi - (i + k)) (bhi - (j + k)) + min (i - alo) (j - blo)
         + sum_list (map capacity queue)"
  by (simp add: push_windows_def capacity_def)

lemma capacity_push:
  assumes "best_ok a b alo ahi blo bhi (i, j, k)" "k \<noteq> 0"
  shows "sum_list (map capacity (push_windows (alo, ahi, blo, bhi) (i, j, k) queue)) + k
           \<le> capacity (alo, ahi, blo, bhi) + sum_list (map capacity queue)"
proof -
  from assms have "alo \<le> i" "blo \<le> j" "i + k \<le> ahi" "j + k \<le> bhi"
    by (simp_all add: best_ok_def)
  note sp = capacity_split[OF this]
  define L where "L = min (ahi - (i + k)) (bhi - (j + k)) + min (i - alo) (j - blo)"
  have 1: "L + k \<le> capacity (alo, ahi, blo, bhi)"
    using sp unfolding L_def capacity_def by simp
  have 2: "sum_list (map capacity (push_windows (alo, ahi, blo, bhi) (i, j, k) queue))
             \<le> L + sum_list (map capacity queue)"
    using capacity_push_le[of alo ahi blo bhi i j k queue] unfolding L_def .
  from 1 2 show ?thesis by linarith
qed

lemma match_loop_total_le:
  "block_total (match_loop a b queue blocks)
     \<le> block_total blocks + sum_list (map capacity queue)"
proof (induction queue blocks rule: match_loop_induct[of _ a b])
  case (Nil blocks)
  then show ?case by (simp add: match_loop_Nil)
next
  case (Zero alo ahi blo bhi queue blocks i j)
  then show ?case by (simp add: match_loop_zero)
next
  case (Block alo ahi blo bhi queue blocks i j k)
  from find_longest_match_ok[of a b alo ahi blo bhi] Block(1)
  have "best_ok a b alo ahi blo bhi (i, j, k)" by simp
  from capacity_push[OF this Block(2), of queue] Block(3)
  show ?case by (simp add: match_loop_block[OF Block(1,2)])
qed

lemma block_total_insort: "block_total (insort x xs) = block_total [x] + block_total xs"
  by (induction xs) (auto simp: block_total_def)

lemma block_total_sort: "block_total (sort xs) = block_total xs"
proof (induction xs)
  case Nil
  then show ?case by simp
next
  case (Cons x xs)
  have "block_total (sort (x # xs)) = block_total [x] + block_total (sort xs)"
    by (simp add: block_total_insort)
  with Cons show ?case by (cases x) simp
qed

lemma block_total_collapse:
  "block_total (collapse (i1, j1, k1) xs) = k1 + block_total xs"
  by (induction "(i1, j1, k1)" xs arbitrary: i1 j1 k1 rule: collapse.induct) auto

lemma block_total_get_matching_blocks:
  "block_total (get_matching_blocks a b)
     = block_total (match_loop a b [(0, length a, 0, length b)] [])"
  by (simp add: get_matching_blocks_def Let_def block_total_collapse block_total_sort)

lemma ratio_total:
  "ratio a b = calculate_ratio (block_total (match_loop a b [(0, length a, 0, length b)] []))
                  (length a + length b)"
  using block_total_get_matching_blocks[of a b]
  by (simp add: ratio_def Let_def block_total_def)

lemma matched_le:
  "block_total (match_loop a b [(0, length a, 0, length b)] []) \<le> min (length a) (length b)"
  using match_loop_total_le[of a b "[(0, length a, 0, length b)]" "[]"]
  by (simp add: capacity_def)

lemma similarity_bounds: "0 \<le> similarity a b \<and> similarity a b \<le> 1"
proof -
  let ?M = "block_total (match_loop a b [(0, length a, 0, length b)] [])"
  have "2 * ?M \<le> length a + length b" using matched_le[of a b] by simp
  then have "(2 * of_nat ?M :: rat) \<le> of_nat (length a + length b)"
    by (metis of_nat_le_iff of_nat_mult of_nat_numeral)
  then show ?thesis
    by (cases "length a + length b = 0")
       (simp_all add: similarity_def ratio_total calculate_ratio_def divide_le_eq_1 del: of_nat_add)
qed

lemma prefix_match_score_range:
  "0 \<le> prefix_match_score a_tokens b_tokens \<and> prefix_match_score a_tokens b_tokens \<le> 93 / 100"
  by (simp add: prefix_match_score_def Let_def)

lemma token_overlap_score_range:
  "0 \<le> token_overlap_score a_tokens b_tokens \<and> token_overlap_score a_tokens b_tokens \<le> 9 / 10"
  by (simp add: token_overlap_score_def Let_def)

lemma pair_score_bounds:
  "0 \<le> pair_score tn tt cn ct \<and> pair_score tn tt cn ct \<le> 1"
proof -
  from prefix_match_score_range[of tt ct]
  have p: "0 \<le> prefix_match_score tt ct" "prefix_match_score tt ct \<le> 1" by simp_all
  from token_overlap_score_range[of tt ct]
  have t: "0 \<le> token_overlap_score tt ct" "token_overlap_score tt ct \<le> 1" by simp_all
  from similarity_bounds[of tn cn] p t show ?thesis
    by (simp add: pair_score_def)
qed

lemma fuzzy_scan_bounds:
  "0 \<le> best_score \<Longrightarrow> best_score \<le> 1 \<Longrightarrow>
     0 \<le> snd (fuzzy_scan dn dt listing_norms (best, best_score))
     \<and> snd (fuzzy_scan dn dt listing_norms (best, best_score)) \<le> 1"
proof (induction listing_norms arbitrary: best best_score)
  case Nil
  then show ?case by simp
next
  case (Cons ln listing_norms)
  obtain l lnorm where ln: "ln = (l, lnorm)" by (cases ln)
  from pair_score_bounds[of dn dt lnorm "tokenize_name (name l)"] Cons
  show ?case by (simp add: ln Let_def)
qed

lemma match_listing_cases:
  obtains (override) l where
      "match_listing dineout_name listings overrides = (Some l, 1, ''override'')"
  | (exact) l where
      "match_listing dineout_name listings overrides = (Some l, 95 / 100, ''exact'')"
  | (fuzzy)
      "match_listing dineout_name listings overrides
         = (fst (fuzzy_scan (normalize_name dineout_name) (tokenize_name dineout_name)
                   (map (\<lambda>listing. (listing, normalize_name (name listing))) listings) (None, 0)),
            snd (fuzzy_scan (normalize_name dineout_name) (tokenize_name dineout_name)
                   (map (\<lambda>listing. (listing, normalize_name (name listing))) listings) (None, 0)),
            ''fuzzy'')"
proof -
  define hit where "hit = (case overrides (py_lower (py_strip dineout_name)) of
                   None \<Rightarrow> None
                 | Some target \<Rightarrow> override_scan target listings)"
  show thesis
  proof (cases hit)
    case (Some l)
    then have "match_listing dineout_name listings overrides = (Some l, 1, ''override'')"
      unfolding match_listing_def Let_def hit_def by simp
    then show thesis by (rule override)
  next
    case None
    show thesis
    proof (cases "exact_scan (normalize_name dineout_name)
                    (map (\<lambda>listing. (listing, normalize_name (name listing))) listings)")
      case (Some l)
      with None have "match_listing dineout_name listings overrides = (Some l, 95 / 100, ''exact'')"
        unfolding match_listing_def Let_def hit_def by simp
      then show thesis by (rule exact)
    next
      case n: None
      with None have "match_listing dineout_name listings overrides
         = (fst (fuzzy_scan (normalize_name dineout_name) (tokenize_name dineout_name)
                   (map (\<lambda>listing. (listing, normalize_name (name listing))) listings) (None, 0)),
            snd (fuzzy_scan (normalize_name dineout_name) (tokenize_name dineout_name)
                   (map (\<lambda>listing. (listing, normalize_name (name listing))) listings) (None, 0)),
            ''fuzzy'')"
        unfolding match_listing_def Let_def hit_def by (simp add: case_prod_unfold)
      then show thesis by (rule fuzzy)
    qed
  qed
qed

text \<open>
  C9.  Whatever the target, the listings and the override map, the score that
  \<^verbatim>\<open>match_listing\<close> returns lies in the closed interval from 0 to 1.
\<close>

theorem C9_score_in_unit_interval:
  "0 \<le> fst (snd (match_listing dineout_name listings overrides))
   \<and> fst (snd (match_listing dineout_name listings overrides)) \<le> 1"
proof (cases dineout_name listings overrides rule: match_listing_cases)
  case (override l)
  then show ?thesis by simp
next
  case (exact l)
  then show ?thesis by simp
next
  case fuzzy
  have "0 \<le> snd (fuzzy_scan (normalize_name dineout_name) (tokenize_name dineout_name)
                   (map (\<lambda>listing. (listing, normalize_name (name listing))) listings) (None, 0))
      \<and> snd (fuzzy_scan (normalize_name dineout_name) (tokenize_name dineout_name)
                   (map (\<lambda>listing. (listing, normalize_name (name listing))) listings) (None, 0)) \<le> 1"
    by (rule fuzzy_scan_bounds) simp_all
  with fuzzy show ?thesis by simp
qed

section \<open>A ratio of 1 means equal sequences\<close>

text \<open>
  A window is \<open>square\<close> when both sides have the same length; \<open>window_eq\<close> says that the
  two sequences agree on it, position by position.
\<close>

definition square :: "window \<Rightarrow> bool" where
  "square w = (case w of (alo, ahi, blo, bhi) \<Rightarrow> alo \<le> ahi \<and> blo \<le> bhi \<and> ahi - alo = bhi - blo)"

definition window_eq :: "'a list \<Rightarrow> 'a list \<Rightarrow> window \<Rightarrow> bool" where
  "window_eq a b w = (case w of (alo, ahi, blo, bhi) \<Rightarrow> \<forall>t<ahi - alo. a ! (alo + t) = b ! (blo + t))"

lemma full_push:
  assumes ok: "best_ok a b alo ahi blo bhi (i, j, k)" and k: "k \<noteq> 0"
    and sq: "square (alo, ahi, blo, bhi)"
    and full: "capacity (alo, ahi, blo, bhi) + sum_list (map capacity queue)
                 \<le> sum_list (map capacity (push_windows (alo, ahi, blo, bhi) (i, j, k) queue)) + k"
  shows "i - alo = j - blo"
    and "\<forall>w\<in>set (push_windows (alo, ahi, blo, bhi) (i, j, k) queue) - set queue. square w"
    and "(alo < i \<longrightarrow> (alo, i, blo, j) \<in> set (push_windows (alo, ahi, blo, bhi) (i, j, k) queue))"
    and "(i + k < ahi \<longrightarrow> (i + k, ahi, j + k, bhi) \<in> set (push_windows (alo, ahi, blo, bhi) (i, j, k) queue))"
proof -
  from ok k have b: "alo \<le> i" "blo \<le> j" "i + k \<le> ahi" "j + k \<le> bhi"
    by (simp_all add: best_ok_def)
  from sq have s: "ahi - alo = bhi - blo" "alo \<le> ahi" "blo \<le> bhi" by (simp_all add: square_def)
  define R where "R = (if i + k < ahi \<and> j + k < bhi then min (ahi - (i + k)) (bhi - (j + k)) else 0)"
  define L where "L = (if alo < i \<and> blo < j then min (i - alo) (j - blo) else 0)"
  have sum: "sum_list (map capacity (push_windows (alo, ahi, blo, bhi) (i, j, k) queue))
               = R + L + sum_list (map capacity queue)"
    by (cases "i + k < ahi \<and> j + k < bhi"; cases "alo < i \<and> blo < j")
       (auto simp: push_windows_def capacity_def R_def L_def)
  have cap: "capacity (alo, ahi, blo, bhi) = ahi - alo" using s by (simp add: capacity_def)
  from full have f: "ahi - alo \<le> R + L + k" unfolding sum cap by simp
  have R1: "R \<le> ahi - (i + k)" and R2: "R \<le> bhi - (j + k)" by (simp_all add: R_def)
  have L1: "L \<le> i - alo" and L2: "L \<le> j - blo" by (simp_all add: L_def)
  have ea: "(i - alo) + k + (ahi - (i + k)) = ahi - alo" using b by simp
  have eb: "(j - blo) + k + (bhi - (j + k)) = ahi - alo" using b s by simp
  from f R1 L1 ea have L: "L = i - alo" and R: "R = ahi - (i + k)" by linarith+
  from f R2 L2 eb have L': "L = j - blo" and R': "R = bhi - (j + k)" by linarith+
  from L L' show ij: "i - alo = j - blo" by simp
  from R R' have r: "ahi - (i + k) = bhi - (j + k)" by simp
  have lpush: "alo < i \<Longrightarrow> alo < i \<and> blo < j" using ij b by linarith
  have rpush: "i + k < ahi \<Longrightarrow> i + k < ahi \<and> j + k < bhi" using r b by linarith
  show "\<forall>w\<in>set (push_windows (alo, ahi, blo, bhi) (i, j, k) queue) - set queue. square w"
    using ij r b by (auto simp: push_windows_def square_def split: if_splits)
  show "(alo < i \<longrightarrow> (alo, i, blo, j) \<in> set (push_windows (alo, ahi, blo, bhi) (i, j, k) queue))"
    using lpush by (simp add: push_windows_def)
  show "(i + k < ahi \<longrightarrow> (i + k, ahi, j + k, bhi) \<in> set (push_windows (alo, ahi, blo, bhi) (i, j, k) queue))"
    using rpush by (simp add: push_windows_def)
qed

lemma queue_subset_push: "set queue \<subseteq> set (push_windows w m queue)"
  by (cases w; cases m) (auto simp: push_windows_def)

lemma window_eq_join:
  assumes ok: "best_ok a b alo ahi blo bhi (i, j, k)" and k: "k \<noteq> 0"
    and ij: "i - alo = j - blo"
    and left: "alo < i \<Longrightarrow> window_eq a b (alo, i, blo, j)"
    and right: "i + k < ahi \<Longrightarrow> window_eq a b (i + k, ahi, j + k, bhi)"
  shows "window_eq a b (alo, ahi, blo, bhi)"
  unfolding window_eq_def
proof (simp, intro allI impI)
  fix t assume t: "t < ahi - alo"
  from ok k have b: "alo \<le> i" "blo \<le> j" "i + k \<le> ahi" "j + k \<le> bhi"
    and m: "\<And>s. s < k \<Longrightarrow> a ! (i + s) = b ! (j + s)"
    by (simp_all add: best_ok_def)
  consider "t < i - alo" | "i - alo \<le> t" "t < i - alo + k" | "i - alo + k \<le> t" by linarith
  then show "a ! (alo + t) = b ! (blo + t)"
  proof cases
    case 1
    then have "alo < i" by simp
    from left[OF this] 1 show ?thesis by (simp add: window_eq_def)
  next
    case 2
    then have "t - (i - alo) < k" by simp
    from m[OF this] have e: "a ! (i + (t - (i - alo))) = b ! (j + (t - (i - alo)))" .
    have e1: "i + (t - (i - alo)) = alo + t" using 2 b by simp
    have e2: "j + (t - (i - alo)) = blo + t" using 2 b ij by simp
    from e show ?thesis unfolding e1 e2 .
  next
    case 3
    with t have lt: "i + k < ahi" by simp
    from 3 t have "t - (i - alo + k) < ahi - (i + k)" by simp
    with right[OF lt] have e: "a ! (i + k + (t - (i - alo + k))) = b ! (j + k + (t - (i - alo + k)))"
      unfolding window_eq_def by blast
    have e1: "i + k + (t - (i - alo + k)) = alo + t" using 3 b by simp
    have e2: "j + k + (t - (i - alo + k)) = blo + t" using 3 b ij by simp
    from e show ?thesis unfolding e1 e2 .
  qed
qed

lemma match_loop_full:
  assumes "\<forall>w\<in>set queue. square w"
    and "block_total blocks + sum_list (map capacity queue)
           \<le> block_total (match_loop a b queue blocks)"
  shows "\<forall>w\<in>set queue. window_eq a b w"
  using assms
proof (induction queue blocks rule: match_loop_induct[of _ a b])
  case (Nil blocks)
  then show ?case by simp
next
  case (Zero alo ahi blo bhi queue blocks i j)
  from Zero.prems(2) have le: "block_total blocks + capacity (alo, ahi, blo, bhi) + sum_list (map capacity queue)
      \<le> block_total (match_loop a b queue blocks)"
    by (simp add: match_loop_zero[OF Zero.hyps])
  with match_loop_total_le[of a b queue blocks]
  have c0: "capacity (alo, ahi, blo, bhi) = 0" by simp
  with Zero.prems(1) have "ahi - alo = 0" by (simp add: capacity_def square_def)
  then have w: "window_eq a b (alo, ahi, blo, bhi)" by (simp add: window_eq_def)
  from le have "block_total blocks + sum_list (map capacity queue)
      \<le> block_total (match_loop a b queue blocks)" by simp
  with Zero.IH Zero.prems(1) have "\<forall>w\<in>set queue. window_eq a b w" by simp
  with w show ?case by simp
next
  case (Block alo ahi blo bhi queue blocks i j k)
  let ?w = "(alo, ahi, blo, bhi)" and ?m = "(i, j, k)"
  let ?q = "push_windows ?w ?m queue"
  from find_longest_match_ok[of a b alo ahi blo bhi] Block.hyps(1)
  have ok: "best_ok a b alo ahi blo bhi (i, j, k)" by simp
  have step: "match_loop a b (?w # queue) blocks = match_loop a b ?q (blocks @ [?m])"
    by (rule match_loop_block[OF Block.hyps(1,2)])
  from Block.prems(2) have ge: "block_total blocks + capacity ?w + sum_list (map capacity queue)
      \<le> block_total (match_loop a b ?q (blocks @ [?m]))"
    by (simp add: step)
  from match_loop_total_le[of a b ?q "blocks @ [?m]"]
  have le: "block_total (match_loop a b ?q (blocks @ [?m]))
      \<le> block_total blocks + k + sum_list (map capacity ?q)" by simp
  from ge le have full: "capacity ?w + sum_list (map capacity queue) \<le> sum_list (map capacity ?q) + k"
    by linarith
  from Block.prems(1) have sq: "square ?w" by simp
  note fp = full_push[OF ok Block.hyps(2) sq full]
  have sqs: "\<forall>w\<in>set ?q. square w" using fp(2) Block.prems(1) by auto
  from capacity_push[OF ok Block.hyps(2), of queue] ge
  have "block_total (blocks @ [?m]) + sum_list (map capacity ?q)
      \<le> block_total (match_loop a b ?q (blocks @ [?m]))" by simp
  from Block.IH[OF sqs this] have all: "\<forall>w\<in>set ?q. window_eq a b w" .
  have "window_eq a b ?w"
  proof (rule window_eq_join[OF ok Block.hyps(2) fp(1)])
    assume "alo < i" with fp(3) all show "window_eq a b (alo, i, blo, j)" by blast
  next
    assume "i + k < ahi" with fp(4) all show "window_eq a b (i + k, ahi, j + k, bhi)" by blast
  qed
  moreover have "\<forall>w\<in>set queue. window_eq a b w" using all queue_subset_push[of queue ?w ?m] by blast
  ultimately show ?case by simp
qed

lemma similarity_eq_1_imp_eq:
  assumes "similarity a b = 1"
  shows "a = b"
proof (cases "length a + length b = 0")
  case True
  then show ?thesis by simp
next
  case False
  let ?M = "block_total (match_loop a b [(0, length a, 0, length b)] [])"
  from assms False have "2 * (of_nat ?M :: rat) = of_nat (length a + length b)"
    by (simp add: similarity_def ratio_total calculate_ratio_def del: of_nat_add)
  then have "(of_nat (2 * ?M) :: rat) = of_nat (length a + length b)" by simp
  then have e: "2 * ?M = length a + length b" by (simp only: of_nat_eq_iff)
  from matched_le[of a b] e have l: "length a = length b" "?M = length a" by simp_all
  have sq: "\<forall>w\<in>set [(0, length a, 0, length b)]. square w" using l by (simp add: square_def)
  have "block_total [] + sum_list (map capacity [(0, length a, 0, length b)]) \<le> ?M"
    using l by (simp add: capacity_def)
  from match_loop_full[OF sq this] have "\<forall>t<length a. a ! t = b ! t"
    by (simp add: window_eq_def)
  with l show ?thesis by (simp add: nth_equalityI)
qed

section \<open>A sequence matches itself completely\<close>

text \<open>
  \<open>nonpop b x\<close>: the element \<open>x\<close> has positions in the table of \<open>b\<close> (it occurs and is
  not popular).  \<open>drun a n\<close> is the length of the run of such elements of \<open>a\<close> that
  ends at position \<open>n\<close>.  The three \<open>diag\<close> predicates are the invariant of the main
  loop of \<^verbatim>\<open>find_longest_match\<close> when both sequences are \<open>a\<close> and the windows are whole:
  the best block lies on the diagonal and no run off the diagonal is longer than it.
\<close>

definition nonpop :: "'a list \<Rightarrow> 'a \<Rightarrow> bool" where
  "nonpop b x = (b2j_get b x \<noteq> [])"

fun drun :: "'a list \<Rightarrow> nat \<Rightarrow> nat" where
  "drun a 0 = (if nonpop a (a ! 0) then 1 else 0)"
| "drun a (Suc n) = (if nonpop a (a ! Suc n) then Suc (drun a n) else 0)"

definition diag_tab :: "'a list \<Rightarrow> nat \<Rightarrow> (nat \<rightharpoonup> nat) \<Rightarrow> bool" where
  "diag_tab a n j2len =
     ((\<forall>j v. j2len j = Some v \<longrightarrow> 1 \<le> v \<and> v \<le> drun a j \<and> 0 < n \<and> v \<le> drun a (n - 1))
      \<and> (0 < n \<and> nonpop a (a ! (n - 1)) \<longrightarrow> j2len (n - 1) = Some (drun a (n - 1))))"

definition diag_best :: "'a list \<Rightarrow> nat \<Rightarrow> nat \<times> nat \<times> nat \<Rightarrow> bool" where
  "diag_best a n m = (case m of (besti, bestj, bestsize) \<Rightarrow>
      besti = bestj \<and> (\<forall>m<n. drun a m \<le> bestsize))"

definition diag_new :: "'a list \<Rightarrow> nat \<Rightarrow> nat list \<Rightarrow> flm_state \<Rightarrow> bool" where
  "diag_new a n js st = (case st of (new, besti, bestj, bestsize) \<Rightarrow>
      besti = bestj \<and> (\<forall>m<n. drun a m \<le> bestsize)
      \<and> (\<forall>j v. new j = Some v \<longrightarrow> 1 \<le> v \<and> v \<le> drun a j \<and> v \<le> drun a n)
      \<and> (n \<in> set js \<or> (drun a n \<le> bestsize \<and> (nonpop a (a ! n) \<longrightarrow> new n = Some (drun a n)))))"

lemma b2j_get_iff:
  "j \<in> set (b2j_get b x) \<longleftrightarrow> nonpop b x \<and> j < length b \<and> b ! j = x"
proof
  assume "j \<in> set (b2j_get b x)"
  with b2j_get_sound[of j b x] show "nonpop b x \<and> j < length b \<and> b ! j = x"
    by (auto simp: nonpop_def)
next
  assume h: "nonpop b x \<and> j < length b \<and> b ! j = x"
  have "b2j_get b x = filter (\<lambda>j. b ! j = x) [0..<length b]"
  proof (cases "length b \<ge> 200
      \<and> length (filter (\<lambda>j. b ! j = x) [0..<length b]) > length b div 100 + 1")
    case True
    then have "b2j_get b x = []" unfolding b2j_get_def Let_def by simp
    with h show ?thesis by (simp add: nonpop_def)
  next
    case False
    then show ?thesis unfolding b2j_get_def Let_def by (simp only: if_False)
  qed
  with h show "j \<in> set (b2j_get b x)" by simp
qed

lemma sorted_b2j_get: "sorted (b2j_get b x)" "distinct (b2j_get b x)"
  unfolding b2j_get_def Let_def by (simp_all add: sorted_wrt_filter)

lemma drun_pos: "nonpop a (a ! m) \<Longrightarrow> 1 \<le> drun a m"
  by (cases m) simp_all

lemma drun_step: "0 < m \<Longrightarrow> nonpop a (a ! m) \<Longrightarrow> drun a m = Suc (drun a (m - 1))"
  by (cases m) simp_all

lemma drun_zero: "\<not> nonpop a (a ! m) \<Longrightarrow> drun a m = 0"
  by (cases m) simp_all

lemma diag_cell:
  assumes tab: "diag_tab a n j2len" and np: "nonpop a (a ! n)" and eq: "a ! j = a ! n"
  shows "j2lenget j2len j + 1 \<le> drun a j"
    and "j2lenget j2len j + 1 \<le> drun a n"
    and "j = n \<Longrightarrow> j2lenget j2len j + 1 = drun a n"
proof -
  from np eq have npj: "nonpop a (a ! j)" by simp
  show "j2lenget j2len j + 1 \<le> drun a j"
  proof (cases j2len j rule: j2lenget_cases)
    case 1
    with drun_pos[OF npj] show ?thesis by simp
  next
    case (2 v)
    with tab have "v \<le> drun a (j - 1)" unfolding diag_tab_def by blast
    moreover from 2 npj have "drun a j = Suc (drun a (j - 1))" by (simp add: drun_step)
    ultimately show ?thesis using 2 by simp
  qed
  show "j2lenget j2len j + 1 \<le> drun a n"
  proof (cases j2len j rule: j2lenget_cases)
    case 1
    with drun_pos[OF np] show ?thesis by simp
  next
    case (2 v)
    with tab have "0 < n" "v \<le> drun a (n - 1)" unfolding diag_tab_def by blast+
    moreover from this np have "drun a n = Suc (drun a (n - 1))" by (simp add: drun_step)
    ultimately show ?thesis using 2 by simp
  qed
  show "j2lenget j2len j + 1 = drun a n" if jn: "j = n"
  proof (cases "n = 0")
    case True
    with jn np show ?thesis by (simp add: j2lenget_def)
  next
    case False
    then have pos: "0 < n" by simp
    show ?thesis
    proof (cases "nonpop a (a ! (n - 1))")
      case True
      with tab pos have "j2len (n - 1) = Some (drun a (n - 1))" unfolding diag_tab_def by blast
      with pos jn have "j2lenget j2len j = drun a (n - 1)" by (simp add: j2lenget_def)
      with drun_step[OF pos np] show ?thesis by simp
    next
      case np': False
      then have z: "drun a (n - 1) = 0" by (rule drun_zero)
      have "j2len (n - 1) = None"
      proof (cases "j2len (n - 1)")
        case (Some v)
        with tab have "1 \<le> v" "v \<le> drun a (n - 1)" unfolding diag_tab_def by blast+
        with z show ?thesis by simp
      qed simp
      with jn have "j2lenget j2len j = 0" by (simp add: j2lenget_def)
      with drun_step[OF pos np] z show ?thesis by simp
    qed
  qed
qed

lemma inner_loop_diag:
  assumes tab: "diag_tab a n j2len"
    and js: "sorted js" "distinct js"
      "\<forall>j\<in>set js. j < length a \<and> a ! j = a ! n \<and> nonpop a (a ! n)"
    and st: "diag_new a n js st"
  shows "diag_new a n [] (inner_loop 0 (length a) n j2len js st)"
  using js st
proof (induction js arbitrary: st)
  case Nil
  then show ?case by simp
next
  case (Cons j js)
  obtain new besti bestj bestsize where st: "st = (new, besti, bestj, bestsize)" by (cases st)
  let ?k = "j2lenget j2len j + 1"
  from Cons.prems(3) have j: "j < length a" "a ! j = a ! n" "nonpop a (a ! n)" by simp_all
  note cell = diag_cell[OF tab j(3) j(2)]
  from Cons.prems(4) have E1: "besti = bestj" and E2: "\<forall>m<n. drun a m \<le> bestsize"
    and E3: "\<And>j v. new j = Some v \<Longrightarrow> 1 \<le> v \<and> v \<le> drun a j \<and> v \<le> drun a n"
    and E4: "n \<in> set (j # js) \<or> (drun a n \<le> bestsize \<and> (nonpop a (a ! n) \<longrightarrow> new n = Some (drun a n)))"
    unfolding st diag_new_def by simp_all
  from Cons.prems(1,2) have tl: "sorted js" "distinct js" "\<forall>x\<in>set js. j < x"
    by (auto simp: order_less_le)
  from Cons.prems(3) have rest: "\<forall>j\<in>set js. j < length a \<and> a ! j = a ! n \<and> nonpop a (a ! n)" by simp
  have E3': "\<And>j' v. (new(j \<mapsto> ?k)) j' = Some v \<Longrightarrow> 1 \<le> v \<and> v \<le> drun a j' \<and> v \<le> drun a n"
  proof -
    fix j' v assume h: "(new(j \<mapsto> ?k)) j' = Some v"
    show "1 \<le> v \<and> v \<le> drun a j' \<and> v \<le> drun a n"
    proof (cases "j' = j")
      case True
      with h have "v = ?k" by simp
      with True cell(1,2) show ?thesis by simp
    next
      case False
      with h E3[of j' v] show ?thesis by simp
    qed
  qed
  have small: "?k \<le> bestsize" if "j \<noteq> n"
  proof (cases "j < n")
    case True
    with E2 cell(1) show ?thesis by (meson order_trans)
  next
    case False
    with that have "n < j" by simp
    with tl(3) have "n \<notin> set (j # js)" by auto
    with E4 have "drun a n \<le> bestsize" by blast
    with cell(2) show ?thesis by simp
  qed
  show ?case
  proof (cases "?k > bestsize")
    case True
    with small have jn: "j = n" by fastforce
    have k: "?k = drun a n" by (rule cell(3)[OF jn])
    have "diag_new a n js (new(j \<mapsto> ?k), Suc n - ?k, Suc j - ?k, ?k)"
      unfolding diag_new_def using E2 E3' True jn k
      by (auto simp del: One_nat_def fun_upd_apply simp add: fun_upd_same)
    from Cons.IH[OF tl(1,2) rest this] True j(1) show ?thesis
      by (simp add: st Let_def)
  next
    case False
    have "n \<in> set js \<or> (drun a n \<le> bestsize \<and> (nonpop a (a ! n) \<longrightarrow> (new(j \<mapsto> ?k)) n = Some (drun a n)))"
    proof (cases "j = n")
      case True
      with cell(3) False show ?thesis by simp
    next
      case jn: False
      with E4 show ?thesis by auto
    qed
    with E1 E2 E3' have "diag_new a n js (new(j \<mapsto> ?k), besti, bestj, bestsize)"
      unfolding diag_new_def by (auto simp del: One_nat_def fun_upd_apply)
    from Cons.IH[OF tl(1,2) rest this] False j(1) show ?thesis
      by (simp add: st Let_def)
  qed
qed


lemma outer_loop_diag:
  assumes "diag_tab a n j2len" "diag_best a n r" "n \<le> length a"
  shows "diag_best a (length a) (snd (outer_loop a a 0 (length a) [n..<length a] (j2len, r)))"
  using assms
proof (induction "length a - n" arbitrary: n j2len r)
  case 0
  then show ?case by simp
next
  case (Suc d)
  then have lt: "n < length a" by simp
  obtain besti bestj bestsize where r: "r = (besti, bestj, bestsize)" by (cases r)
  let ?js = "b2j_get a (a ! n)"
  have js: "\<forall>j\<in>set ?js. j < length a \<and> a ! j = a ! n \<and> nonpop a (a ! n)"
    by (simp add: b2j_get_iff)
  have init: "diag_new a n ?js (Map.empty, besti, bestj, bestsize)"
  proof (cases "nonpop a (a ! n)")
    case True
    with lt have "n \<in> set ?js" by (simp add: b2j_get_iff)
    with Suc.prems(2) show ?thesis by (simp add: diag_new_def diag_best_def r)
  next
    case False
    with Suc.prems(2) show ?thesis by (simp add: diag_new_def diag_best_def r drun_zero)
  qed
  obtain new' r' where step:
    "inner_loop 0 (length a) n j2len ?js (Map.empty, besti, bestj, bestsize) = (new', r')"
    by (cases "inner_loop 0 (length a) n j2len ?js (Map.empty, besti, bestj, bestsize)")
  from inner_loop_diag[OF Suc.prems(1) sorted_b2j_get js init] step
  have dn: "diag_new a n [] (new', r')" by simp
  have tab': "diag_tab a (Suc n) new'"
    using dn unfolding diag_new_def diag_tab_def by (cases r') auto
  have best': "diag_best a (Suc n) r'"
    using dn unfolding diag_new_def diag_best_def by (cases r') (auto simp: less_Suc_eq)
  have d: "d = length a - Suc n" using Suc.hyps(2) by simp
  have "Suc n \<le> length a" using lt by simp
  from Suc.hyps(1)[OF d tab' best' this]
  show ?case using lt r step by (simp add: upt_conv_Cons)
qed

lemma extend_left_diag:
  "extend_left a a 0 0 False (i, i, s) = (0, 0, s + i)"
proof (induction i arbitrary: s)
  case 0
  show ?case by (subst extend_left.simps) simp
next
  case (Suc i)
  have "extend_left a a 0 0 False (Suc i, Suc i, s) = extend_left a a 0 0 False (i, i, s + 1)"
    by (subst extend_left.simps) (simp add: isbjunk_def)
  with Suc[of "s + 1"] show ?case by simp
qed

lemma extend_right_diag:
  "s \<le> n \<Longrightarrow> extend_right a a n n False (0, 0, s) = (0, 0, n)"
proof (induction "n - s" arbitrary: s)
  case 0
  then have "s = n" by simp
  then show ?case by (subst extend_right.simps) simp
next
  case (Suc d)
  then have lt: "s < n" by simp
  then have "extend_right a a n n False (0, 0, s) = extend_right a a n n False (0, 0, s + 1)"
    by (subst extend_right.simps) (simp add: isbjunk_def)
  moreover have "d = n - (s + 1)" "s + 1 \<le> n" using Suc.hyps(2) lt by simp_all
  ultimately show ?case using Suc.hyps(1)[of "s + 1"] by simp
qed

lemma extend_left_junk: "extend_left a b alo blo True m = m"
proof -
  obtain i j k where m: "m = (i, j, k)" by (cases m)
  show ?thesis unfolding m by (subst extend_left.simps) (simp add: isbjunk_def)
qed

lemma extend_right_junk: "extend_right a b ahi bhi True m = m"
proof -
  obtain i j k where m: "m = (i, j, k)" by (cases m)
  show ?thesis unfolding m by (subst extend_right.simps) (simp add: isbjunk_def)
qed

lemma find_longest_match_self:
  "find_longest_match a a 0 (length a) 0 (length a) = (0, 0, length a)"
proof -
  let ?n = "length a"
  obtain j2len besti bestj bestsize
    where o: "outer_loop a a 0 ?n [0..<?n] (Map.empty, 0, 0, 0) = (j2len, besti, bestj, bestsize)"
    by (cases "outer_loop a a 0 ?n [0..<?n] (Map.empty, 0, 0, 0)")
  have "diag_tab a 0 Map.empty" by (simp add: diag_tab_def)
  moreover have "diag_best a 0 (0, 0, 0)" by (simp add: diag_best_def)
  ultimately have "diag_best a ?n (snd (outer_loop a a 0 ?n [0..<?n] (Map.empty, 0, 0, 0)))"
    by (rule outer_loop_diag) simp
  with o have d: "besti = bestj" by (simp add: diag_best_def)
  have "tab_ok a a 0 0 0 Map.empty" by (simp add: tab_ok_def)
  moreover have "best_ok a a 0 ?n 0 ?n (0, 0, 0)" by (simp add: best_ok_def)
  ultimately have "best_ok a a 0 ?n 0 ?n (snd (outer_loop a a 0 ?n [0..<?n] (Map.empty, 0, 0, 0)))"
    using outer_loop_inv[of a a 0 0 0 Map.empty ?n ?n "(0, 0, 0)"] by simp
  with o have "bestsize + besti \<le> ?n" by (auto simp: best_ok_def split: if_splits)
  then show ?thesis
    unfolding find_longest_match_def o
    by (simp add: d extend_left_diag extend_right_diag extend_left_junk extend_right_junk)
qed

lemma similarity_self: "similarity a a = 1"
proof (cases "a = []")
  case True
  then show ?thesis
    by (simp add: similarity_def ratio_total calculate_ratio_def)
next
  case False
  have f: "find_longest_match a a 0 (length a) 0 (length a) = (0, 0, length a)"
    by (rule find_longest_match_self)
  have "match_loop a a [(0, length a, 0, length a)] [] = [(0, 0, length a)]"
    using False by (simp add: match_loop_block[OF f] push_windows_def match_loop_Nil)
  with False show ?thesis
    by (simp add: similarity_def ratio_total calculate_ratio_def)
qed

section \<open>Claims about the choice among the candidates\<close>

lemma heuristics_below_1:
  "max (prefix_match_score tt ct) (token_overlap_score tt ct) < 1"
  using prefix_match_score_range[of tt ct] token_overlap_score_range[of tt ct] by simp

lemma pair_score_eq_1_iff: "pair_score tn tt cn ct = 1 \<longleftrightarrow> tn = cn"
proof
  assume "pair_score tn tt cn ct = 1"
  with heuristics_below_1[of tt ct] have "similarity tn cn = 1"
    unfolding pair_score_def by (simp add: max_def split: if_splits)
  then show "tn = cn" by (rule similarity_eq_1_imp_eq)
next
  assume "tn = cn"
  with heuristics_below_1[of tt ct] show "pair_score tn tt cn ct = 1"
    unfolding pair_score_def by (simp add: similarity_self max_def)
qed

lemma score_eq_1_iff: "score a b = 1 \<longleftrightarrow> normalize_name a = normalize_name b"
  by (simp add: score_def pair_score_eq_1_iff)

lemma score_bounds: "0 \<le> score a b \<and> score a b \<le> 1"
  by (simp add: score_def pair_score_bounds)

lemma exact_scan_find:
  "exact_scan dn (map (\<lambda>listing. (listing, normalize_name (name listing))) ls)
     = (if dn = [] then None else find (\<lambda>l. normalize_name (name l) = dn) ls)"
  by (induction ls) auto

lemma first_max_skip:
  fixes S :: "'a \<Rightarrow> rat"
  assumes l': "l' \<in> set ls" "S l < S l'"
  shows "Max (S ` set (l # ls)) = Max (S ` set ls)"
    and "find (\<lambda>x. S x = Max (S ` set ls)) (l # ls)
           = find (\<lambda>x. S x = Max (S ` set ls)) ls"
proof -
  let ?A = "S ` set ls"
  from l' have ne: "ls \<noteq> []" by auto
  from l'(1) have ge: "S l' \<le> Max ?A" by (intro Max_ge) auto
  from less_le_trans[OF l'(2) ge] have lt: "S l < Max ?A" .
  then show m: "Max (S ` set (l # ls)) = Max ?A" using ne by (simp add: max_def)
  from lt have "S l \<noteq> Max ?A" by simp
  then show "find (\<lambda>x. S x = Max ?A) (l # ls) = find (\<lambda>x. S x = Max ?A) ls"
    by simp
qed

lemma first_max_head:
  fixes S :: "'a \<Rightarrow> rat"
  assumes "\<forall>x\<in>set ls. S x \<le> S l"
  shows "Max (S ` set (l # ls)) = S l"
    and "find (\<lambda>x. S x = S l) (l # ls) = Some l"
proof -
  show "Max (S ` set (l # ls)) = S l"
    by (rule Max_eqI) (use assms in auto)
  show "find (\<lambda>x. S x = S l) (l # ls) = Some l"
    by simp
qed

lemma fuzzy_scan_argmax:
  fixes S :: "'a named_scheme \<Rightarrow> rat"
  assumes S: "\<And>l. S l = pair_score dn dt (normalize_name (name l)) (tokenize_name (name l))"
  shows "fuzzy_scan dn dt (map (\<lambda>listing. (listing, normalize_name (name listing))) ls) (best, bs)
           = (if \<exists>l\<in>set ls. bs < S l
              then (find (\<lambda>l. S l = Max (S ` set ls)) ls, Max (S ` set ls))
              else (best, bs))"
proof (induction ls arbitrary: best bs)
  case Nil
  then show ?case by simp
next
  case (Cons l ls)
  let ?f = "\<lambda>ls st. fuzzy_scan dn dt (map (\<lambda>listing. (listing, normalize_name (name listing))) ls) st"
  let ?R = "\<lambda>ls. (find (\<lambda>x. S x = Max (S ` set ls)) ls, Max (S ` set ls))"
  have step: "?f (l # ls) (best, bs)
      = (if bs < S l then ?f ls (Some l, S l) else ?f ls (best, bs))"
    by (simp add: Let_def S)
  show ?case
  proof (cases "bs < S l")
    case True
    then have ex': "\<exists>x\<in>set (l # ls). bs < S x" by simp
    have s: "?f (l # ls) (best, bs) = ?f ls (Some l, S l)" using step True by simp
    show ?thesis
    proof (cases "\<exists>l'\<in>set ls. S l < S l'")
      case ex: True
      then obtain l' where l': "l' \<in> set ls" "S l < S l'" by blast
      have "?f ls (Some l, S l) = ?R ls" using Cons.IH[of "Some l" "S l"] ex by simp
      also have "\<dots> = ?R (l # ls)" unfolding first_max_skip[of l' ls S l, OF l'] ..
      finally show ?thesis unfolding s using ex' by (simp only: if_True)
    next
      case nex: False
      then have le: "\<forall>x\<in>set ls. S x \<le> S l" by (auto simp: not_less)
      have "?f ls (Some l, S l) = (Some l, S l)" using Cons.IH[of "Some l" "S l"] nex by simp
      also have "\<dots> = ?R (l # ls)" unfolding first_max_head[of ls S l, OF le] ..
      finally show ?thesis unfolding s using ex' by (simp only: if_True)
    qed
  next
    case False
    have s: "?f (l # ls) (best, bs) = ?f ls (best, bs)" using step False by simp
    show ?thesis
    proof (cases "\<exists>l'\<in>set ls. bs < S l'")
      case ex: True
      then obtain l' where l': "l' \<in> set ls" "bs < S l'" by blast
      from False l'(2) have lt: "S l < S l'" by simp
      from ex have ex': "\<exists>x\<in>set (l # ls). bs < S x" by simp
      have "?f ls (best, bs) = ?R ls" using Cons.IH[of best bs] ex by simp
      also have "\<dots> = ?R (l # ls)" unfolding first_max_skip[of l' ls S l, OF l'(1) lt] ..
      finally show ?thesis unfolding s using ex' by (simp only: if_True)
    next
      case nex: False
      with False have nex': "\<not> (\<exists>x\<in>set (l # ls). bs < S x)" by simp
      have "?f ls (best, bs) = (best, bs)" using Cons.IH[of best bs] nex by simp
      then show ?thesis unfolding s using nex' by (simp only: if_False)
    qed
  qed
qed

lemma match_name_loop_argmax:
  fixes S :: "'a named_scheme \<Rightarrow> rat"
  assumes S: "\<And>c. S c = pair_score tn tt (gm_normalize_name (name c)) (gm_tokenize_name (name c))"
    and bs: "bs < 1"
  shows "fst (match_name_loop tn tt cs (best, bs))
           = (if \<exists>c\<in>set cs. bs < S c then find (\<lambda>c. S c = Max (S ` set cs)) cs else best)"
  using bs
proof (induction cs arbitrary: best bs)
  case Nil
  then show ?case by simp
next
  case (Cons c cs)
  let ?f = "\<lambda>cs st. fst (match_name_loop tn tt cs st)"
  let ?R = "\<lambda>cs. find (\<lambda>x. S x = Max (S ` set cs)) cs"
  have le1: "\<And>x. S x \<le> 1" unfolding S using pair_score_bounds by blast
  show ?case
  proof (cases "gm_normalize_name (name c) = tn")
    case True
    then have one: "S c = 1" unfolding S pair_score_eq_1_iff by blast
    with Cons.prems have ex': "\<exists>x\<in>set (c # cs). bs < S x" by simp
    have "\<forall>x\<in>set cs. S x \<le> S c" using le1 one by simp
    note h = first_max_head[of cs S c, OF this]
    have "?f (c # cs) (best, bs) = Some c" using True by simp
    also have "\<dots> = ?R (c # cs)" unfolding h ..
    finally show ?thesis using ex' by (simp only: if_True)
  next
    case ne: False
    then have "S c \<noteq> 1" unfolding S pair_score_eq_1_iff by blast
    with le1[of c] have lt1: "S c < 1" by simp
    have step: "?f (c # cs) (best, bs)
        = (if bs < S c then ?f cs (Some c, S c) else ?f cs (best, bs))"
      using ne by (simp add: Let_def S)
    show ?thesis
    proof (cases "bs < S c")
      case True
      then have ex': "\<exists>x\<in>set (c # cs). bs < S x" by simp
      have s: "?f (c # cs) (best, bs) = ?f cs (Some c, S c)" using step True by simp
      show ?thesis
      proof (cases "\<exists>c'\<in>set cs. S c < S c'")
        case ex: True
        then obtain c' where c': "c' \<in> set cs" "S c < S c'" by blast
        have "?f cs (Some c, S c) = ?R cs" using Cons.IH[OF lt1, of "Some c"] ex by simp
        also have "\<dots> = ?R (c # cs)" unfolding first_max_skip[of c' cs S c, OF c'] ..
        finally show ?thesis unfolding s using ex' by (simp only: if_True)
      next
        case nex: False
        then have le: "\<forall>x\<in>set cs. S x \<le> S c" by (auto simp: not_less)
        have "?f cs (Some c, S c) = Some c" using Cons.IH[OF lt1, of "Some c"] nex by simp
        also have "\<dots> = ?R (c # cs)" unfolding first_max_head[of cs S c, OF le] ..
        finally show ?thesis unfolding s using ex' by (simp only: if_True)
      qed
    next
      case False
      have s: "?f (c # cs) (best, bs) = ?f cs (best, bs)" using step False by simp
      show ?thesis
      proof (cases "\<exists>c'\<in>set cs. bs < S c'")
        case ex: True
        then obtain c' where c': "c' \<in> set cs" "bs < S c'" by blast
        from False c'(2) have lt: "S c < S c'" by simp
        from ex have ex': "\<exists>x\<in>set (c # cs). bs < S x" by simp
        have "?f cs (best, bs) = ?R cs" using Cons.IH[OF Cons.prems, of best] ex by simp
        also have "\<dots> = ?R (c # cs)" unfolding first_max_skip[of c' cs S c, OF c'(1) lt] ..
        finally show ?thesis unfolding s using ex' by (simp only: if_True)
      next
        case nex: False
        with False have nex': "\<not> (\<exists>x\<in>set (c # cs). bs < S x)" by simp
        have "?f cs (best, bs) = best" using Cons.IH[OF Cons.prems, of best] nex by simp
        then show ?thesis unfolding s using nex' by (simp only: if_False)
      qed
    qed
  qed
qed

lemma match_name_first_max:
  "fst (match_name target candidates)
     = (if gm_normalize_name target \<noteq> [] \<and> (\<exists>c\<in>set candidates. 0 < gm_score target (name c))
        then find (\<lambda>c. gm_score target (name c)
                         = Max ((\<lambda>c. gm_score target (name c)) ` set candidates)) candidates
        else None)"
proof (cases "gm_normalize_name target = []")
  case True
  then show ?thesis by (simp add: match_name_def)
next
  case False
  have S: "\<And>c. gm_score target (name c)
      = pair_score (gm_normalize_name target) (gm_tokenize_name target)
          (gm_normalize_name (name c)) (gm_tokenize_name (name c))"
    by (simp add: gm_score_def)
  from False have "fst (match_name target candidates)
      = fst (match_name_loop (gm_normalize_name target) (gm_tokenize_name target) candidates (None, 0))"
    by (simp add: match_name_def)
  also have "\<dots> = (if \<exists>c\<in>set candidates. 0 < gm_score target (name c)
        then find (\<lambda>c. gm_score target (name c)
                         = Max ((\<lambda>c. gm_score target (name c)) ` set candidates)) candidates
        else None)"
    by (rule match_name_loop_argmax[OF S]) simp
  finally show ?thesis using False by simp
qed

lemma match_listing_first_max:
  assumes "case overrides (py_lower (py_strip dineout_name)) of
             None \<Rightarrow> True
           | Some target \<Rightarrow> \<forall>l\<in>set listings. py_lower (py_strip (name l)) \<noteq> target"
  shows "fst (match_listing dineout_name listings overrides)
           = (if \<exists>l\<in>set listings. 0 < score dineout_name (name l)
              then find (\<lambda>l. score dineout_name (name l)
                               = Max ((\<lambda>l. score dineout_name (name l)) ` set listings)) listings
              else None)"
proof -
  let ?S = "\<lambda>l. score dineout_name (name l)"
  let ?dn = "normalize_name dineout_name" and ?dt = "tokenize_name dineout_name"
  let ?lns = "map (\<lambda>listing. (listing, normalize_name (name listing))) listings"
  have hit: "(case overrides (py_lower (py_strip dineout_name)) of
                   None \<Rightarrow> None
                 | Some target \<Rightarrow> override_scan target listings) = None"
    using assms by (auto simp: override_scan_find find_None_iff split: option.splits)
  show ?thesis
  proof (cases "exact_scan ?dn ?lns")
    case None
    have S: "\<And>l. ?S l = pair_score ?dn ?dt (normalize_name (name l)) (tokenize_name (name l))"
      by (simp add: score_def)
    from None hit have "fst (match_listing dineout_name listings overrides)
        = fst (fuzzy_scan ?dn ?dt ?lns (None, 0))"
      unfolding match_listing_def Let_def by (simp add: case_prod_unfold)
    also have "\<dots> = (if \<exists>l\<in>set listings. 0 < ?S l
              then find (\<lambda>l. ?S l = Max (?S ` set listings)) listings else None)"
      unfolding fuzzy_scan_argmax[of ?S ?dn ?dt listings None 0, OF S] by simp
    finally show ?thesis .
  next
    case (Some l)
    then have ne: "?dn \<noteq> []" and f: "find (\<lambda>l. normalize_name (name l) = ?dn) listings = Some l"
      by (simp_all add: exact_scan_find split: if_splits)
    from f have l: "l \<in> set listings" "normalize_name (name l) = ?dn"
      by (auto simp: find_Some_iff)
    then have one: "?S l = 1" by (simp add: score_eq_1_iff)
    have m: "Max (?S ` set listings) = 1"
      by (rule Max_eqI) (use l one score_bounds in auto)
    have "find (\<lambda>l. ?S l = 1) listings = find (\<lambda>l. normalize_name (name l) = ?dn) listings"
      by (rule find_cong) (auto simp: score_eq_1_iff)
    with f have a: "find (\<lambda>l. ?S l = Max (?S ` set listings)) listings = Some l"
      unfolding m by simp
    from l one have ex: "\<exists>l\<in>set listings. 0 < ?S l" by force
    from Some hit have "fst (match_listing dineout_name listings overrides) = Some l"
      unfolding match_listing_def Let_def by simp
    with a ex show ?thesis by simp
  qed
qed

lemma abc_norms:
  "normalize_name ''abc'' = ''abc''" "normalize_name ''xyz'' = ''xyz''"
  "normalize_name ''uvw'' = ''uvw''"
  by (simp_all add: norm_eval str_eval)

lemma abc_tokens:
  "py_split ''abc'' = [''abc'']" "py_split ''xyz'' = [''xyz'']" "py_split ''uvw'' = [''uvw'']"
  by (simp_all add: str_eval)

lemma abc_similarity: "similarity ''abc'' ''xyz'' = 0" "similarity ''abc'' ''uvw'' = 0"
  by (simp_all add: sm_eval)

lemma abc_scores: "score ''abc'' ''xyz'' = 0" "score ''abc'' ''uvw'' = 0"
  by (simp_all add: score_eval tokenize_name_def abc_norms abc_tokens abc_similarity)

text \<open>
  C3, as stated: whenever two or more candidates attain the maximum fuzzy score, the
  resolver returns the first of them.  For the target \<open>''abc''\<close> the candidates \<open>''xyz''\<close>
  and \<open>''uvw''\<close> both attain the maximum, which is 0, and no candidate is returned.
\<close>

theorem C3_first_maximal_counterexample:
  "score ''abc'' ''xyz'' = score ''abc'' ''uvw''
   \<and> fst (match_listing ''abc'' [\<lparr>name = ''xyz''\<rparr>, \<lparr>name = ''uvw''\<rparr>] Map.empty) = None"
  using abc_scores
  by (simp add: match_listing_def score_def abc_norms)

text \<open>
  C3, amended.  When the override shortcut does not fire, \<^verbatim>\<open>match_listing\<close> returns the
  first listing, in list order, that attains the maximum score, provided that maximum is
  positive; it returns no listing when every score is 0 or the list is empty.
  \<^verbatim>\<open>match_name\<close> does the same for a target whose normalized name is not empty, and
  returns no candidate for one whose normalized name is empty.  (The listing found by the
  exact check is the first one with score 1, the largest score there is.)
\<close>

theorem C3_first_maximal_candidate:
  "((case overrides (py_lower (py_strip dineout_name)) of
       None \<Rightarrow> True
     | Some t \<Rightarrow> \<forall>l\<in>set listings. py_lower (py_strip (name l)) \<noteq> t)
    \<longrightarrow> fst (match_listing dineout_name listings overrides)
          = (if \<exists>l\<in>set listings. 0 < score dineout_name (name l)
             then find (\<lambda>l. score dineout_name (name l)
                              = Max ((\<lambda>l. score dineout_name (name l)) ` set listings)) listings
             else None))
   \<and> fst (match_name target candidates)
       = (if gm_normalize_name target \<noteq> [] \<and> (\<exists>c\<in>set candidates. 0 < gm_score target (name c))
          then find (\<lambda>c. gm_score target (name c)
                           = Max ((\<lambda>c. gm_score target (name c)) ` set candidates)) candidates
          else None)"
proof (intro conjI impI)
  assume "case overrides (py_lower (py_strip dineout_name)) of
       None \<Rightarrow> True
     | Some t \<Rightarrow> \<forall>l\<in>set listings. py_lower (py_strip (name l)) \<noteq> t"
  then show "fst (match_listing dineout_name listings overrides)
          = (if \<exists>l\<in>set listings. 0 < score dineout_name (name l)
             then find (\<lambda>l. score dineout_name (name l)
                              = Max ((\<lambda>l. score dineout_name (name l)) ` set listings)) listings
             else None)"
    by (rule match_listing_first_max)
next
  show "fst (match_name target candidates)
       = (if gm_normalize_name target \<noteq> [] \<and> (\<exists>c\<in>set candidates. 0 < gm_score target (name c))
          then find (\<lambda>c. gm_score target (name c)
                           = Max ((\<lambda>c. gm_score target (name c)) ` set candidates)) candidates
          else None)"
    by (rule match_name_first_max)
qed

lemma tide_norms:
  "normalize_name ''Tide'' = ''tide''" "normalize_name ''Tides'' = ''tides''"
  "normalize_name ''Tidex'' = ''tidex''"
  by (simp_all add: norm_eval str_eval)

lemma tide_tokens:
  "py_split ''tides'' = [''tides'']" "py_split ''tidex'' = [''tidex'']"
  by (simp_all add: str_eval)

lemma tide_similarity:
  "similarity ''tide'' ''tides'' = 8 / 9" "similarity ''tide'' ''tidex'' = 8 / 9"
  by (simp_all add: sm_eval)

lemma tide_scores:
  "score ''Tide'' ''diet'' = 1 / 4" "score ''Tide'' ''Tides'' = 8 / 9"
  "score ''Tide'' ''Tidex'' = 8 / 9"
  by (simp_all add: score_eval tokenize_name_def tide_norms tide_diet_norms tide_tokens
      tide_diet_tokens tide_similarity tide_diet_similarity)

theorem C3_first_maximal_candidate_witness:
  "score ''Tide'' ''Tides'' = score ''Tide'' ''Tidex''
   \<and> score ''Tide'' ''diet'' < score ''Tide'' ''Tides''
   \<and> fst (match_listing ''Tide''
            [\<lparr>name = ''diet''\<rparr>, \<lparr>name = ''Tides''\<rparr>, \<lparr>name = ''Tidex''\<rparr>] Map.empty)
       = Some \<lparr>name = ''Tides''\<rparr>"
  using C3_first_maximal_candidate[where overrides = Map.empty and dineout_name = "''Tide''"
      and listings = "[\<lparr>name = ''diet''\<rparr>, \<lparr>name = ''Tides''\<rparr>, \<lparr>name = ''Tidex''\<rparr>]"
      and target = "''Tide''" and candidates = "[] :: named list"]
  by (simp add: tide_scores)

end
